theory Spec2Isabelle
  imports Main "HOL-Library.Word"
begin

unbundle bit_operations_syntax

section \<open>Bytes, strings and the SHA-256 digest\<close>

text \<open>
  A Go \<^verbatim>\<open>string\<close> is a sequence of bytes, as an Isabelle \<^typ>\<open>string\<close> is;
  \<^verbatim>\<open>[]byte(item)\<close> is the list of its bytes.
\<close>

type_synonym byte = "8 word"
type_synonym uint32 = "32 word"
type_synonym uint64 = "64 word"

definition bytes :: "string \<Rightarrow> byte list" where
  "bytes s = map of_char s"

text \<open>
  A \<^verbatim>\<open>[]string\<close> is a slice header: the address of its first element, its length and
  its capacity. The elements live in memory, one string per cell, and are shared by every
  slice over the same cells: a write through one of them is seen through the others.
  The nil slice has length 0.
\<close>

type_synonym addr = nat
type_synonym heap = "addr \<Rightarrow> string"

record slice =
  Data :: addr
  Len :: nat
  Cap :: nat

definition elems :: "heap \<Rightarrow> slice \<Rightarrow> string list" where
  "elems h sl = map h [Data sl..<Data sl + Len sl]"

text \<open>
  \<^verbatim>\<open>crypto/sha256\<close> belongs to the Go standard library. The digest it computes is the
  SHA-256 function of FIPS 180-4, written out here: padding, message schedule, 64 rounds
  per 64-byte block, big-endian output of the eight state words.
\<close>

definition rotr :: "nat \<Rightarrow> uint32 \<Rightarrow> uint32" where
  "rotr n x = word_rotr n x"

definition Ch :: "uint32 \<Rightarrow> uint32 \<Rightarrow> uint32 \<Rightarrow> uint32" where
  "Ch x y z = (x AND y) XOR (NOT x AND z)"

definition Maj :: "uint32 \<Rightarrow> uint32 \<Rightarrow> uint32 \<Rightarrow> uint32" where
  "Maj x y z = (x AND y) XOR (x AND z) XOR (y AND z)"

definition bsig0 :: "uint32 \<Rightarrow> uint32" where
  "bsig0 x = rotr 2 x XOR rotr 13 x XOR rotr 22 x"

definition bsig1 :: "uint32 \<Rightarrow> uint32" where
  "bsig1 x = rotr 6 x XOR rotr 11 x XOR rotr 25 x"

definition ssig0 :: "uint32 \<Rightarrow> uint32" where
  "ssig0 x = rotr 7 x XOR rotr 18 x XOR drop_bit 3 x"

definition ssig1 :: "uint32 \<Rightarrow> uint32" where
  "ssig1 x = rotr 17 x XOR rotr 19 x XOR drop_bit 10 x"

definition K256 :: "uint32 list" where
  "K256 = [
    0x428A2F98, 0x71374491, 0xB5C0FBCF, 0xE9B5DBA5, 0x3956C25B, 0x59F111F1, 0x923F82A4, 0xAB1C5ED5,
    0xD807AA98, 0x12835B01, 0x243185BE, 0x550C7DC3, 0x72BE5D74, 0x80DEB1FE, 0x9BDC06A7, 0xC19BF174,
    0xE49B69C1, 0xEFBE4786, 0x0FC19DC6, 0x240CA1CC, 0x2DE92C6F, 0x4A7484AA, 0x5CB0A9DC, 0x76F988DA,
    0x983E5152, 0xA831C66D, 0xB00327C8, 0xBF597FC7, 0xC6E00BF3, 0xD5A79147, 0x06CA6351, 0x14292967,
    0x27B70A85, 0x2E1B2138, 0x4D2C6DFC, 0x53380D13, 0x650A7354, 0x766A0ABB, 0x81C2C92E, 0x92722C85,
    0xA2BFE8A1, 0xA81A664B, 0xC24B8B70, 0xC76C51A3, 0xD192E819, 0xD6990624, 0xF40E3585, 0x106AA070,
    0x19A4C116, 0x1E376C08, 0x2748774C, 0x34B0BCB5, 0x391C0CB3, 0x4ED8AA4A, 0x5B9CCA4F, 0x682E6FF3,
    0x748F82EE, 0x78A5636F, 0x84C87814, 0x8CC70208, 0x90BEFFFA, 0xA4506CEB, 0xBEF9A3F7, 0xC67178F2]"

definition init256 :: "uint32 list" where
  "init256 = [0x6A09E667, 0xBB67AE85, 0x3C6EF372, 0xA54FF53A,
              0x510E527F, 0x9B05688C, 0x1F83D9AB, 0x5BE0CD19]"

definition be32 :: "byte list \<Rightarrow> uint32" where
  "be32 bs = foldl (\<lambda>acc b. push_bit 8 acc OR ucast b) 0 bs"

definition putUint32 :: "uint32 \<Rightarrow> byte list" where
  "putUint32 w = [ucast (drop_bit 24 w), ucast (drop_bit 16 w), ucast (drop_bit 8 w), ucast w]"

definition putUint64 :: "uint64 \<Rightarrow> byte list" where
  "putUint64 w = map (\<lambda>i. ucast (drop_bit (8 * (7 - i)) w)) [0..<8]"

definition pad256 :: "byte list \<Rightarrow> byte list" where
  "pad256 m = m @ [0x80] @ replicate ((119 - length m mod 64) mod 64) 0
                @ putUint64 (push_bit 3 (of_nat (length m)))"

fun chunks :: "nat \<Rightarrow> nat \<Rightarrow> 'a list \<Rightarrow> 'a list list" where
  "chunks 0 n xs = []"
| "chunks (Suc k) n xs = take n xs # chunks k n (drop n xs)"

fun schedule :: "nat \<Rightarrow> uint32 list \<Rightarrow> uint32 list" where
  "schedule 0 w = w"
| "schedule (Suc n) w =
     schedule n (w @ [ssig1 (w ! (length w - 2)) + w ! (length w - 7)
                      + ssig0 (w ! (length w - 15)) + w ! (length w - 16)])"

fun round256 :: "uint32 list \<Rightarrow> uint32 \<times> uint32 \<Rightarrow> uint32 list" where
  "round256 [a, b, c, d, e, f, g, h] (k, w) =
     (let t1 = h + bsig1 e + Ch e f g + k + w;
          t2 = bsig0 a + Maj a b c
      in [t1 + t2, a, b, c, d + t1, e, f, g])"
| "round256 st _ = st"

definition block256 :: "uint32 list \<Rightarrow> byte list \<Rightarrow> uint32 list" where
  "block256 h p =
     (let w = schedule 48 (map be32 (chunks 16 4 p))
      in map2 (+) h (foldl round256 h (zip K256 w)))"

definition sha256_Sum256 :: "byte list \<Rightarrow> byte list" where
  "sha256_Sum256 m =
     (let p = pad256 m
      in concat (map putUint32 (foldl block256 init256 (chunks (length p div 64) 64 p))))"

text \<open>
  The streaming interface \<^verbatim>\<open>hash.Hash\<close>: the state of a digest is the bytes written to
  it so far, \<^verbatim>\<open>Write\<close> appends, \<^verbatim>\<open>Sum(b)\<close> appends the digest of everything written
  to \<^verbatim>\<open>b\<close>.
\<close>

type_synonym digest = "byte list"

definition sha256_New :: digest where
  "sha256_New = []"

definition hash_Write :: "digest \<Rightarrow> byte list \<Rightarrow> digest" where
  "hash_Write d p = d @ p"

definition hash_Sum :: "digest \<Rightarrow> byte list \<Rightarrow> byte list" where
  "hash_Sum d b = b @ sha256_Sum256 d"

text \<open>
  The builtin \<^verbatim>\<open>copy(dst, src)\<close>: the first \<^verbatim>\<open>min(len(dst), len(src))\<close> elements of
  \<^verbatim>\<open>dst\<close> are overwritten.
\<close>

definition copy :: "'a list \<Rightarrow> 'a list \<Rightarrow> 'a list" where
  "copy dst src = take (length dst) src @ drop (length src) dst"

section \<open>Errors, file metadata and the virtual filesystem\<close>

datatype error = ErrNotSupported | errors_New string | ENOENT

text \<open>
  \<^verbatim>\<open>time.Time\<close> as seconds since the Unix epoch and nanoseconds within the second.
  \<^verbatim>\<open>UnixMicro\<close> returns an \<^verbatim>\<open>int64\<close> (arithmetic wraps), and \<^verbatim>\<open>uint64(x)\<close> keeps the
  64 bits of \<^verbatim>\<open>x\<close>. Values of type \<^verbatim>\<open>int64\<close> are integers.
\<close>

record Time =
  unixSec :: int
  nsec :: int

definition int64 :: "int \<Rightarrow> int" where
  "int64 x = signed_take_bit 63 x"

definition UnixMicro :: "Time \<Rightarrow> int" where
  "UnixMicro t = int64 (unixSec t * 1000000 + nsec t div 1000)"

definition uint64 :: "int \<Rightarrow> uint64" where
  "uint64 x = word_of_int x"

definition MaxUint64 :: uint64 where
  "MaxUint64 = 0xFFFFFFFFFFFFFFFF"

record FileInfo =
  Name :: string
  Size :: int
  Mode :: uint32
  ModTime :: Time
  IsDir :: bool

text \<open>
  A \<^verbatim>\<open>[]iofs.FileInfo\<close> may be nil, which callers read as "absent". A listing is
  recorded by the elements it has when it is handed over.
\<close>

type_synonym FileInfos = "FileInfo list option"

text \<open>
  The virtual filesystem is consumed through \<^verbatim>\<open>Stat\<close> and \<^verbatim>\<open>Statfs\<close> only; what
  they return at a given moment is the state of the filesystem at that moment.
\<close>

record vfs =
  Stat :: "string \<Rightarrow> error + FileInfo"
  Statfs :: "int \<times> int \<times> int"

record billyFs =
  VFS :: vfs

type_synonym vfs_Handle = nat

record billyFile =
  Handle :: vfs_Handle

section \<open>The capability adapter: unsupported operations\<close>

definition Lock :: "billyFile \<Rightarrow> error option" where
  "Lock f = Some ErrNotSupported"

definition Unlock :: "billyFile \<Rightarrow> error option" where
  "Unlock f = Some ErrNotSupported"

definition MkdirAll :: "billyFs \<Rightarrow> string \<Rightarrow> uint32 \<Rightarrow> error option" where
  "MkdirAll filesystem filename perm = Some ErrNotSupported"

definition Chroot :: "billyFs \<Rightarrow> string \<Rightarrow> error + billyFs" where
  "Chroot filesystem path = Inl ErrNotSupported"

definition Root :: "billyFs \<Rightarrow> string" where
  "Root filesystem = ''/''"

definition Lstat :: "billyFs \<Rightarrow> string \<Rightarrow> error + FileInfo" where
  "Lstat filesystem filename = Inl ErrNotSupported"

definition Symlink :: "billyFs \<Rightarrow> string \<Rightarrow> string \<Rightarrow> error option" where
  "Symlink filesystem target link = Some ErrNotSupported"

definition Readlink :: "billyFs \<Rightarrow> string \<Rightarrow> error + string" where
  "Readlink filesystem link = Inl ErrNotSupported"

definition TempFile :: "billyFs \<Rightarrow> string \<Rightarrow> string \<Rightarrow> error + billyFile" where
  "TempFile filesystem dir prefix = Inl ErrNotSupported"

section \<open>The bounded caches\<close>

text \<open>
  Both caches are \<^verbatim>\<open>lru.TwoQueueCache\<close> values of the library
  \<^verbatim>\<open>github.com/hashicorp/golang-lru\<close>, built by \<^verbatim>\<open>lru.New2Q\<close>. A 2Q cache keeps
  three \<^verbatim>\<open>simplelru.LRU\<close> lists: entries added once (\<open>recent\<close>), entries added or read
  again (\<open>frequent\<close>) and the keys lately evicted from \<open>recent\<close> (\<open>recentEvict\<close>, which
  stores no values). The library's algorithm is written out here.

  A \<^verbatim>\<open>simplelru.LRU\<close> is a list of entries, most recently used first, with a size bound;
  the library's \<^verbatim>\<open>items\<close> map is the index of that list.
\<close>

record ('k, 'v) LRU =
  size_l :: nat
  evictList :: "('k \<times> 'v) list"

definition NewLRU :: "nat \<Rightarrow> error + ('k, 'v) LRU" where
  "NewLRU n = (if n = 0 then Inl (errors_New ''Must provide a positive size'')
               else Inr \<lparr>size_l = n, evictList = []\<rparr>)"

definition removeElement :: "'k \<Rightarrow> ('k \<times> 'v) list \<Rightarrow> ('k \<times> 'v) list" where
  "removeElement k es = filter (\<lambda>e. fst e \<noteq> k) es"

definition LRU_Len :: "('k, 'v) LRU \<Rightarrow> nat" where
  "LRU_Len c = length (evictList c)"

definition LRU_Contains :: "('k, 'v) LRU \<Rightarrow> 'k \<Rightarrow> bool" where
  "LRU_Contains c k = (map_of (evictList c) k \<noteq> None)"

definition LRU_Peek :: "('k, 'v) LRU \<Rightarrow> 'k \<Rightarrow> 'v option" where
  "LRU_Peek c k = map_of (evictList c) k"

definition LRU_Get :: "('k, 'v) LRU \<Rightarrow> 'k \<Rightarrow> ('k, 'v) LRU \<times> 'v option" where
  "LRU_Get c k =
     (case map_of (evictList c) k of
        Some v \<Rightarrow> (c\<lparr>evictList := (k, v) # removeElement k (evictList c)\<rparr>, Some v)
      | None \<Rightarrow> (c, None))"

definition LRU_Remove :: "('k, 'v) LRU \<Rightarrow> 'k \<Rightarrow> ('k, 'v) LRU" where
  "LRU_Remove c k = c\<lparr>evictList := removeElement k (evictList c)\<rparr>"

definition LRU_RemoveOldest :: "('k, 'v) LRU \<Rightarrow> ('k, 'v) LRU \<times> ('k \<times> 'v) option" where
  "LRU_RemoveOldest c =
     (if evictList c = [] then (c, None)
      else (c\<lparr>evictList := butlast (evictList c)\<rparr>, Some (last (evictList c))))"

definition LRU_Add :: "('k, 'v) LRU \<Rightarrow> 'k \<Rightarrow> 'v \<Rightarrow> ('k, 'v) LRU" where
  "LRU_Add c k v =
     (if LRU_Contains c k then c\<lparr>evictList := (k, v) # removeElement k (evictList c)\<rparr>
      else let c' = c\<lparr>evictList := (k, v) # evictList c\<rparr>
           in if LRU_Len c' > size_l c' then fst (LRU_RemoveOldest c') else c')"

record ('k, 'v) TwoQueueCache =
  size_q :: nat
  recentSize :: nat
  recent :: "('k, 'v) LRU"
  frequent :: "('k, 'v) LRU"
  recentEvict :: "('k, unit) LRU"

text \<open>
  \<^verbatim>\<open>New2Q(size)\<close> is \<^verbatim>\<open>New2QParams(size, 0.25, 0.50)\<close>: the sub-sizes are
  \<^verbatim>\<open>int(float64(size) * 0.25)\<close> and \<^verbatim>\<open>int(float64(size) * 0.50)\<close>.
\<close>

definition New2Q :: "nat \<Rightarrow> error + ('k, 'v) TwoQueueCache" where
  "New2Q n =
     (if n = 0 then Inl (errors_New ''invalid size'')
      else case NewLRU n of Inl e \<Rightarrow> Inl e | Inr r \<Rightarrow>
           (case NewLRU n of Inl e \<Rightarrow> Inl e | Inr f \<Rightarrow>
           (case NewLRU (n div 2) of Inl e \<Rightarrow> Inl e | Inr g \<Rightarrow>
              Inr \<lparr>size_q = n, recentSize = n div 4, recent = r, frequent = f,
                   recentEvict = g\<rparr>)))"

definition ensureSpace :: "('k, 'v) TwoQueueCache \<Rightarrow> bool \<Rightarrow> ('k, 'v) TwoQueueCache" where
  "ensureSpace c recentEvictFlag =
     (let recentLen = LRU_Len (recent c); freqLen = LRU_Len (frequent c)
      in if recentLen + freqLen < size_q c then c
         else if recentLen > 0 \<and> (recentLen > recentSize c
                   \<or> (recentLen = recentSize c \<and> \<not> recentEvictFlag))
         then (case LRU_RemoveOldest (recent c) of
                 (r, Some (k, _)) \<Rightarrow> c\<lparr>recent := r, recentEvict := LRU_Add (recentEvict c) k ()\<rparr>
               | (r, None) \<Rightarrow> c\<lparr>recent := r\<rparr>)
         else c\<lparr>frequent := fst (LRU_RemoveOldest (frequent c))\<rparr>)"

definition Add2Q :: "('k, 'v) TwoQueueCache \<Rightarrow> 'k \<Rightarrow> 'v \<Rightarrow> ('k, 'v) TwoQueueCache" where
  "Add2Q c k v =
     (if LRU_Contains (frequent c) k then c\<lparr>frequent := LRU_Add (frequent c) k v\<rparr>
      else if LRU_Contains (recent c) k
      then c\<lparr>recent := LRU_Remove (recent c) k, frequent := LRU_Add (frequent c) k v\<rparr>
      else if LRU_Contains (recentEvict c) k
      then (let c' = ensureSpace c True
            in c'\<lparr>recentEvict := LRU_Remove (recentEvict c') k,
                  frequent := LRU_Add (frequent c') k v\<rparr>)
      else (let c' = ensureSpace c False
            in c'\<lparr>recent := LRU_Add (recent c') k v\<rparr>))"

definition Get2Q :: "('k, 'v) TwoQueueCache \<Rightarrow> 'k \<Rightarrow> ('k, 'v) TwoQueueCache \<times> 'v option" where
  "Get2Q c k =
     (case LRU_Get (frequent c) k of
        (f, Some v) \<Rightarrow> (c\<lparr>frequent := f\<rparr>, Some v)
      | (f, None) \<Rightarrow>
          (case LRU_Peek (recent c) k of
             Some v \<Rightarrow> (c\<lparr>recent := LRU_Remove (recent c) k,
                           frequent := LRU_Add (frequent c) k v\<rparr>, Some v)
           | None \<Rightarrow> (c, None)))"

section \<open>The session handler\<close>

text \<open>A cached value has type \<^verbatim>\<open>interface{}\<close>: here one of the two dynamic types stored.\<close>

datatype iface = StringSlice slice | FileInfoSlice FileInfos

type_synonym VerifierPathPair = "uint64 \<times> string"

definition MAX_FILE_HANDLES :: nat where
  "MAX_FILE_HANDLES = 1024"

record server =
  fs :: billyFs
  pathForHandle :: "(byte list, iface) TwoQueueCache"
  contentsForVerifier :: "(VerifierPathPair, iface) TwoQueueCache"

record FSStat_t =
  TotalSize :: uint64
  FreeSize :: uint64
  AvailableSize :: uint64
  TotalFiles :: uint64
  FreeFiles :: uint64
  AvailableFiles :: uint64

definition FSStat :: "server \<Rightarrow> billyFs \<Rightarrow> FSStat_t \<Rightarrow> FSStat_t \<times> error option" where
  "FSStat s filesystem fsStat =
     (case Statfs (VFS (fs s)) of (totalBytes, _, freeBytes) \<Rightarrow>
        (let st1 = fsStat\<lparr>TotalSize := uint64 totalBytes\<rparr>;
             st2 = st1\<lparr>FreeSize := uint64 freeBytes\<rparr>;
             st3 = st2\<lparr>AvailableSize := FreeSize st2\<rparr>;
             st4 = st3\<lparr>TotalFiles := 0\<rparr>;
             st5 = st4\<lparr>FreeFiles := MaxUint64\<rparr>;
             st6 = st5\<lparr>AvailableFiles := MaxUint64\<rparr>
         in (st6, None)))"

text \<open>
  \<^verbatim>\<open>ToHandle\<close> reads the elements of \<^verbatim>\<open>path\<close> from memory as it is at the call, and
  caches the slice itself, not a copy of its elements.
\<close>

definition ToHandle :: "heap \<Rightarrow> server \<Rightarrow> billyFs \<Rightarrow> slice \<Rightarrow> server \<times> byte list" where
  "ToHandle h s filesystem path =
     (let vHash = foldl (\<lambda>d item. hash_Write d (bytes item)) sha256_New (elems h path);
          sum = hash_Sum vHash [];
          key = copy (replicate 32 0) sum
      in (s\<lparr>pathForHandle := Add2Q (pathForHandle s) key (StringSlice path)\<rparr>, sum))"

definition FromHandle :: "server \<Rightarrow> byte list \<Rightarrow> server \<times> billyFs \<times> (error + slice)" where
  "FromHandle s fh =
     (let key = copy (replicate 32 0) fh
      in case Get2Q (pathForHandle s) key of
           (c, Some (StringSlice path)) \<Rightarrow> (s\<lparr>pathForHandle := c\<rparr>, fs s, Inr path)
         | (c, Some _) \<Rightarrow> (s\<lparr>pathForHandle := c\<rparr>, fs s, Inl (errors_New ''invalid value in map''))
         | (c, None) \<Rightarrow>
             (s\<lparr>pathForHandle := c\<rparr>, fs s, Inl (errors_New ''handle unknown or expired'')))"

definition HandleLimit :: "server \<Rightarrow> nat" where
  "HandleLimit s = MAX_FILE_HANDLES"

definition VerifierFor :: "server \<Rightarrow> string \<Rightarrow> FileInfos \<Rightarrow> server \<times> uint64" where
  "VerifierFor s path contents =
     (case Stat (VFS (fs s)) path of
        Inl err \<Rightarrow> (s, 0)
      | Inr node \<Rightarrow>
          (let verifier = uint64 (UnixMicro (ModTime node));
               key = (verifier, path)
           in (s\<lparr>contentsForVerifier :=
                    Add2Q (contentsForVerifier s) key (FileInfoSlice contents)\<rparr>, verifier)))"

definition DataForVerifier :: "server \<Rightarrow> string \<Rightarrow> uint64 \<Rightarrow> server \<times> FileInfos" where
  "DataForVerifier s path verifier =
     (let key = (verifier, path)
      in case Get2Q (contentsForVerifier s) key of
           (c, Some (FileInfoSlice fileInfos)) \<Rightarrow> (s\<lparr>contentsForVerifier := c\<rparr>, fileInfos)
         | (c, _) \<Rightarrow> (s\<lparr>contentsForVerifier := c\<rparr>, None))"

text \<open>
  \<^verbatim>\<open>newServer\<close> discards the error of \<^verbatim>\<open>lru.New2Q\<close>; for \<^verbatim>\<open>MAX_FILE_HANDLES\<close> there
  is none (lemma \<open>New2Q_MAX_FILE_HANDLES\<close> below).
\<close>

definition newServer :: "vfs \<Rightarrow> server" where
  "newServer v =
     (let billyFs = \<lparr>VFS = v\<rparr>;
          handleCache = projr (New2Q MAX_FILE_HANDLES);
          verifierCache = projr (New2Q MAX_FILE_HANDLES)
      in \<lparr>fs = billyFs, pathForHandle = handleCache, contentsForVerifier = verifierCache\<rparr>)"

text \<open>
  The states a server goes through: it is created by \<^verbatim>\<open>newServer\<close>, the protocol layer
  calls its methods in any order, and the filesystem behind it changes at any time.
\<close>

inductive reachable :: "server \<Rightarrow> bool" where
  reach_new: "reachable (newServer v)"
| reach_ToHandle: "reachable s \<Longrightarrow> reachable (fst (ToHandle h s filesystem path))"
| reach_FromHandle: "reachable s \<Longrightarrow> reachable (fst (FromHandle s fh))"
| reach_VerifierFor: "reachable s \<Longrightarrow> reachable (fst (VerifierFor s path contents))"
| reach_DataForVerifier: "reachable s \<Longrightarrow> reachable (fst (DataForVerifier s path verifier))"
| reach_fs: "reachable s \<Longrightarrow> reachable (s\<lparr>fs := \<lparr>VFS = v\<rparr>\<rparr>)"

text \<open>
  A sequence of \<^verbatim>\<open>ToHandle\<close> calls, in order: each call with the path it is given and
  the memory as it is at that call.
\<close>

definition registerAll :: "server \<Rightarrow> (heap \<times> slice) list \<Rightarrow> server" where
  "registerAll s calls = foldl (\<lambda>s' call. fst (ToHandle (fst call) s' (fs s') (snd call))) s calls"

text \<open>What the caller reads through the slice that \<^verbatim>\<open>FromHandle\<close> returned.\<close>

definition readPath :: "heap \<Rightarrow> error + slice \<Rightarrow> error + string list" where
  "readPath h r = (case r of Inl e \<Rightarrow> Inl e | Inr path \<Rightarrow> Inr (elems h path))"

section \<open>Notions used to state the properties\<close>

text \<open>The handle of a path: the digest of the concatenation of its components.\<close>

definition handleOf :: "string list \<Rightarrow> byte list" where
  "handleOf components = sha256_Sum256 (concat (map bytes components))"

text \<open>The cache entry a \<^verbatim>\<open>ToHandle\<close> call writes.\<close>

definition entryOf :: "heap \<times> slice \<Rightarrow> byte list \<times> iface" where
  "entryOf call = (handleOf (elems (fst call) (snd call)), StringSlice (snd call))"

text \<open>The keys a 2Q cache can resolve: those of its two value-carrying lists.\<close>

definition Keys2Q :: "('k, 'v) TwoQueueCache \<Rightarrow> 'k set" where
  "Keys2Q c = fst ` set (evictList (recent c)) \<union> fst ` set (evictList (frequent c))"

text \<open>Both value-carrying lists of a cache have room for at least one entry.\<close>

definition cache_ok :: "('k, 'v) TwoQueueCache \<Rightarrow> bool" where
  "cache_ok c \<longleftrightarrow> 0 < size_l (recent c) \<and> 0 < size_l (frequent c)"

text \<open>
  The shape of a cache of capacity \<open>n\<close> to which the entries \<open>kvs\<close>, with pairwise
  different keys, were added once each, oldest first, and which was never read: nothing
  was promoted, and \<open>recent\<close> holds the \<open>n\<close> newest entries.
\<close>

definition fresh_inv :: "nat \<Rightarrow> ('k \<times> 'v) list \<Rightarrow> ('k, 'v) TwoQueueCache \<Rightarrow> bool" where
  "fresh_inv n kvs c \<longleftrightarrow>
     size_q c = n \<and> recentSize c = n div 4 \<and> size_l (recent c) = n \<and> size_l (frequent c) = n
     \<and> evictList (frequent c) = [] \<and> evictList (recent c) = take n (rev kvs)
     \<and> fst ` set (evictList (recentEvict c)) \<subseteq> fst ` set kvs"

text \<open>
  The shape of a cache of capacity \<open>n\<close> in which the key \<open>k0\<close> was added twice, so
  that it sits in \<open>frequent\<close>, and to which the entries \<open>kvs\<close> were then added once
  each.
\<close>

definition promoted_inv ::
  "nat \<Rightarrow> 'k \<Rightarrow> 'v \<Rightarrow> ('k \<times> 'v) list \<Rightarrow> ('k, 'v) TwoQueueCache \<Rightarrow> bool" where
  "promoted_inv n k0 v0 kvs c \<longleftrightarrow>
     size_q c = n \<and> recentSize c = n div 4 \<and> size_l (recent c) = n \<and> size_l (frequent c) = n
     \<and> evictList (frequent c) = [(k0, v0)] \<and> evictList (recent c) = take (n - 1) (rev kvs)
     \<and> fst ` set (evictList (recentEvict c)) \<subseteq> fst ` set kvs"

subsection \<open>Example filesystems and servers\<close>

definition emptyVfs :: vfs where
  "emptyVfs = \<lparr>Stat = (\<lambda>p. Inl ENOENT), Statfs = (1000, 400, 600)\<rparr>"

definition fileA :: FileInfo where
  "fileA = \<lparr>Name = ''a.txt'', Size = 12, Mode = 0x1A4,
            ModTime = \<lparr>unixSec = 1700000000, nsec = 0\<rparr>, IsDir = False\<rparr>"

definition fileB :: FileInfo where
  "fileB = \<lparr>Name = ''b.txt'', Size = 34, Mode = 0x1A4,
            ModTime = \<lparr>unixSec = 1700000001, nsec = 0\<rparr>, IsDir = False\<rparr>"

definition listing :: FileInfos where
  "listing = Some [fileA, fileB]"

definition dataDir :: FileInfo where
  "dataDir = \<lparr>Name = ''data'', Size = 0, Mode = 0x800001ED,
              ModTime = \<lparr>unixSec = 1700000000, nsec = 123456789\<rparr>, IsDir = True\<rparr>"

definition dataVfs :: vfs where
  "dataVfs = \<lparr>Stat = (\<lambda>p. if p = ''/data'' then Inr dataDir else Inl ENOENT),
              Statfs = (1000, 400, 600)\<rparr>"

text \<open>A directory whose modification time is the Unix epoch.\<close>

definition epochDir :: FileInfo where
  "epochDir = \<lparr>Name = ''data'', Size = 0, Mode = 0x800001ED,
               ModTime = \<lparr>unixSec = 0, nsec = 0\<rparr>, IsDir = True\<rparr>"

definition epochVfs :: vfs where
  "epochVfs = \<lparr>Stat = (\<lambda>p. if p = ''/data'' then Inr epochDir else Inl ENOENT),
               Statfs = (1000, 400, 600)\<rparr>"

text \<open>
  A server that listed \<^verbatim>\<open>/data\<close> while its modification time was the epoch, after which
  the directory disappeared.
\<close>

definition staleServer :: server where
  "staleServer =
     (fst (VerifierFor (newServer epochVfs) ''/data'' listing))\<lparr>fs := \<lparr>VFS = emptyVfs\<rparr>\<rparr>"

text \<open>
  Paths laid out in memory one after the other, four cells each, and the calls that
  register them in order while that memory stays as it is.
\<close>

definition heapOf :: "string list list \<Rightarrow> heap" where
  "heapOf ps a =
     (if a div 4 < length ps \<and> a mod 4 < length (ps ! (a div 4)) then ps ! (a div 4) ! (a mod 4)
      else [])"

definition sliceAt :: "string list list \<Rightarrow> nat \<Rightarrow> slice" where
  "sliceAt ps k = \<lparr>Data = 4 * k, Len = length (ps ! k), Cap = 4\<rparr>"

definition callsOf :: "string list list \<Rightarrow> (heap \<times> slice) list" where
  "callsOf ps = map (\<lambda>k. (heapOf ps, sliceAt ps k)) [0..<length ps]"

text \<open>
  A caller that builds two paths by appending to the same slice with spare capacity:
  the second \<^verbatim>\<open>append\<close> overwrites the cell the first one wrote.
\<close>

definition sharedSlice :: slice where
  "sharedSlice = \<lparr>Data = 0, Len = 2, Cap = 4\<rparr>"

definition heapDirA :: heap where
  "heapDirA a = (if a = 0 then ''dir'' else if a = 1 then ''a'' else [])"

definition heapDirB :: heap where
  "heapDirB a = (if a = 0 then ''dir'' else if a = 1 then ''b'' else [])"

text \<open>A handle with its first byte changed.\<close>

definition flipFirst :: "byte list \<Rightarrow> byte list" where
  "flipFirst fh = (case fh of [] \<Rightarrow> [] | b # bs \<Rightarrow> (b + 1) # bs)"

definition fillerPath :: "nat \<Rightarrow> string list" where
  "fillerPath i = [''dir'', replicate (Suc i) CHR ''x'']"

definition fillerPaths :: "nat \<Rightarrow> string list list" where
  "fillerPaths n = map fillerPath [0..<n]"

definition docsPaths :: "string list list" where
  "docsPaths = [[''docs'', ''report.txt'']]"

definition collidingPaths :: "string list list" where
  "collidingPaths =
     [''docs'', ''report.txt''] # fillerPaths 1999 @ [[''docs'', ''report'', ''.txt'']]"

definition abPaths :: "string list list" where
  "abPaths = [[''ab'', ''c''], [''a'', ''bc'']]"

definition abcPaths :: "string list list" where
  "abcPaths = [[''abc''], [''a''], [''b'']]"

text \<open>The server \<^verbatim>\<open>newServer\<close> builds, after the path \<^verbatim>\<open>["abc"]\<close> was registered.\<close>

definition abcServer :: server where
  "abcServer =
     fst (ToHandle (heapOf abcPaths) (newServer emptyVfs) \<lparr>VFS = emptyVfs\<rparr> (sliceAt abcPaths 0))"

text \<open>A server whose handle registry has capacity 2 instead of \<open>MAX_FILE_HANDLES\<close>.\<close>

definition smallServer :: server where
  "smallServer = (newServer emptyVfs)\<lparr>pathForHandle := projr (New2Q 2)\<rparr>"

section \<open>The digest\<close>

lemma foldl_Write:
  "foldl (\<lambda>h item. hash_Write h (bytes item)) d path = d @ concat (map bytes path)"
  by (induction path arbitrary: d) (simp_all add: hash_Write_def)

lemma length_round256: "length (round256 st kw) = length st"
  by (cases "(st, kw)" rule: round256.cases) (simp_all add: Let_def)

lemma length_foldl_round256: "length (foldl round256 st kws) = length st"
  by (induction kws arbitrary: st) (simp_all add: length_round256)

lemma length_block256: "length (block256 h p) = length h"
  by (simp add: block256_def Let_def length_foldl_round256)

lemma length_foldl_block256: "length (foldl block256 h ps) = length h"
  by (induction ps arbitrary: h) (simp_all add: length_block256)

lemma length_concat_putUint32: "length (concat (map putUint32 ws)) = 4 * length ws"
  by (induction ws) (simp_all add: putUint32_def)

lemma length_sha256_Sum256: "length (sha256_Sum256 m) = 32"
  by (simp add: sha256_Sum256_def Let_def length_concat_putUint32 length_foldl_block256
      init256_def)

text \<open>The digests of three short messages, as published for SHA-256.\<close>

lemma sha256_abc:
  "sha256_Sum256 (bytes ''abc'') =
     [0xba, 0x78, 0x16, 0xbf, 0x8f, 0x01, 0xcf, 0xea, 0x41, 0x41, 0x40, 0xde, 0x5d, 0xae, 0x22, 0x23,
      0xb0, 0x03, 0x61, 0xa3, 0x96, 0x17, 0x7a, 0x9c, 0xb4, 0x10, 0xff, 0x61, 0xf2, 0x00, 0x15, 0xad]"
  by code_simp

lemma sha256_a:
  "sha256_Sum256 (bytes ''a'') =
     [0xca, 0x97, 0x81, 0x12, 0xca, 0x1b, 0xbd, 0xca, 0xfa, 0xc2, 0x31, 0xb3, 0x9a, 0x23, 0xdc, 0x4d,
      0xa7, 0x86, 0xef, 0xf8, 0x14, 0x7c, 0x4e, 0x72, 0xb9, 0x80, 0x77, 0x85, 0xaf, 0xee, 0x48, 0xbb]"
  by code_simp

lemma sha256_b:
  "sha256_Sum256 (bytes ''b'') =
     [0x3e, 0x23, 0xe8, 0x16, 0x00, 0x39, 0x59, 0x4a, 0x33, 0x89, 0x4f, 0x65, 0x64, 0xe1, 0xb1, 0x34,
      0x8b, 0xbd, 0x7a, 0x00, 0x88, 0xd4, 0x2c, 0x4a, 0xcb, 0x73, 0xee, 0xae, 0xd5, 0x9c, 0x00, 0x9d]"
  by code_simp

section \<open>Handles and their cache keys\<close>

lemma copy_key_full: "length src = 32 \<Longrightarrow> copy (replicate 32 z) src = src"
  by (simp add: copy_def)

lemma copy_key_take:
  "copy (replicate 32 z) src = take 32 src @ replicate (32 - length src) z"
  by (simp add: copy_def)

lemma length_handleOf [simp]: "length (handleOf components) = 32"
  by (simp add: handleOf_def length_sha256_Sum256)

lemma copy_handleOf: "copy (replicate 32 0) (handleOf components) = handleOf components"
  by (simp add: copy_key_full handleOf_def length_sha256_Sum256)

lemma ToHandle_eq:
  "ToHandle h s filesystem path =
     (s\<lparr>pathForHandle :=
          Add2Q (pathForHandle s) (handleOf (elems h path)) (StringSlice path)\<rparr>,
      handleOf (elems h path))"
  by (simp add: ToHandle_def Let_def foldl_Write sha256_New_def hash_Sum_def handleOf_def
      copy_key_full length_sha256_Sum256)

lemma FromHandle_hit:
  "snd (Get2Q (pathForHandle s) (copy (replicate 32 0) fh)) = Some (StringSlice path)
   \<Longrightarrow> snd (FromHandle s fh) = (fs s, Inr path)"
  by (auto simp: FromHandle_def Let_def split: prod.splits option.splits iface.splits)

lemma FromHandle_miss:
  "snd (Get2Q (pathForHandle s) (copy (replicate 32 0) fh)) = None
   \<Longrightarrow> snd (FromHandle s fh) = (fs s, Inl (errors_New ''handle unknown or expired''))"
  by (auto simp: FromHandle_def Let_def split: prod.splits option.splits iface.splits)

section \<open>The LRU lists\<close>

lemma LRU_Contains_iff: "LRU_Contains c k \<longleftrightarrow> k \<in> fst ` set (evictList c)"
  by (simp add: LRU_Contains_def map_of_eq_None_iff)

lemma size_l_LRU_Add [simp]: "size_l (LRU_Add c k v) = size_l c"
  by (simp add: LRU_Add_def LRU_RemoveOldest_def Let_def)

lemma size_l_LRU_Remove [simp]: "size_l (LRU_Remove c k) = size_l c"
  by (simp add: LRU_Remove_def)

lemma size_l_LRU_RemoveOldest [simp]: "size_l (fst (LRU_RemoveOldest c)) = size_l c"
  by (simp add: LRU_RemoveOldest_def)

lemma size_l_LRU_Get [simp]: "size_l (fst (LRU_Get c k)) = size_l c"
  by (simp add: LRU_Get_def split: option.splits)

lemma map_of_LRU_Add_same:
  "0 < size_l c \<Longrightarrow> map_of (evictList (LRU_Add c k v)) k = Some v"
  by (cases "evictList c")
     (auto simp: LRU_Add_def LRU_RemoveOldest_def LRU_Len_def Let_def)

lemma keys_butlast: "fst ` set (butlast es) \<subseteq> fst ` set es"
  by (auto dest: in_set_butlastD)

lemma keys_RemoveOldest:
  "fst ` set (evictList (fst (LRU_RemoveOldest c))) \<subseteq> fst ` set (evictList c)"
  using keys_butlast [of "evictList c"] by (simp add: LRU_RemoveOldest_def)

lemma keys_LRU_Add:
  "fst ` set (evictList (LRU_Add c k v)) \<subseteq> insert k (fst ` set (evictList c))"
  using keys_butlast [of "(k, v) # evictList c"]
  by (auto simp: LRU_Add_def LRU_RemoveOldest_def Let_def removeElement_def)

lemma in_keys_take: "x \<in> fst ` set (take n xs) \<Longrightarrow> x \<in> fst ` set xs"
  by (auto dest: in_set_takeD)

section \<open>The 2Q cache\<close>

lemma ensureSpace_sizes [simp]:
  "size_l (recent (ensureSpace c b)) = size_l (recent c)"
  "size_l (frequent (ensureSpace c b)) = size_l (frequent c)"
  by (auto simp: ensureSpace_def Let_def LRU_RemoveOldest_def split: prod.splits option.splits)

lemma ensureSpace_frequent_keys:
  "fst ` set (evictList (frequent (ensureSpace c b))) \<subseteq> fst ` set (evictList (frequent c))"
  using keys_RemoveOldest [of "frequent c"]
  by (auto simp: ensureSpace_def Let_def split: prod.splits option.splits)

lemma cache_ok_Add2Q: "cache_ok c \<Longrightarrow> cache_ok (Add2Q c k v)"
  by (simp add: cache_ok_def Add2Q_def Let_def)

lemma cache_ok_Get2Q: "cache_ok c \<Longrightarrow> cache_ok (fst (Get2Q c k))"
  by (auto simp: cache_ok_def Get2Q_def LRU_Get_def split: prod.splits option.splits)

lemma Get2Q_frequent:
  "map_of (evictList (frequent c)) k = Some v \<Longrightarrow> snd (Get2Q c k) = Some v"
  by (simp add: Get2Q_def LRU_Get_def)

lemma Get2Q_recent:
  "map_of (evictList (frequent c)) k = None \<Longrightarrow> map_of (evictList (recent c)) k = Some v
   \<Longrightarrow> snd (Get2Q c k) = Some v"
  by (simp add: Get2Q_def LRU_Get_def LRU_Peek_def)

lemma Get2Q_miss:
  "map_of (evictList (frequent c)) k = None \<Longrightarrow> map_of (evictList (recent c)) k = None
   \<Longrightarrow> Get2Q c k = (c, None)"
  by (simp add: Get2Q_def LRU_Get_def LRU_Peek_def)

lemma Get2Q_not_cached: "k \<notin> Keys2Q c \<Longrightarrow> Get2Q c k = (c, None)"
  by (rule Get2Q_miss) (auto simp: Keys2Q_def map_of_eq_None_iff)

text \<open>What was just added is found, whatever had to be evicted to make room.\<close>

lemma Get2Q_Add2Q:
  assumes "cache_ok c"
  shows "snd (Get2Q (Add2Q c k v) k) = Some v"
proof -
  from assms have r: "0 < size_l (recent c)" and f: "0 < size_l (frequent c)"
    by (simp_all add: cache_ok_def)
  consider (freq) "LRU_Contains (frequent c) k"
    | (rec) "\<not> LRU_Contains (frequent c) k" "LRU_Contains (recent c) k"
    | (ghost) "\<not> LRU_Contains (frequent c) k" "\<not> LRU_Contains (recent c) k"
        "LRU_Contains (recentEvict c) k"
    | (new) "\<not> LRU_Contains (frequent c) k" "\<not> LRU_Contains (recent c) k"
        "\<not> LRU_Contains (recentEvict c) k"
    by blast
  then show ?thesis
  proof cases
    case freq
    then show ?thesis
      by (simp add: Add2Q_def Get2Q_frequent map_of_LRU_Add_same f)
  next
    case rec
    then show ?thesis
      by (simp add: Add2Q_def Get2Q_frequent map_of_LRU_Add_same f)
  next
    case ghost
    then show ?thesis
      by (simp add: Add2Q_def Let_def Get2Q_frequent map_of_LRU_Add_same f)
  next
    case new
    have "k \<notin> fst ` set (evictList (frequent (ensureSpace c False)))"
      using new(1) ensureSpace_frequent_keys [of c False] by (auto simp: LRU_Contains_iff)
    then have "map_of (evictList (frequent (ensureSpace c False))) k = None"
      by (simp add: map_of_eq_None_iff)
    with new show ?thesis
      by (simp add: Add2Q_def Let_def Get2Q_recent map_of_LRU_Add_same r)
  qed
qed

lemma New2Q_MAX_FILE_HANDLES:
  "New2Q MAX_FILE_HANDLES =
     Inr \<lparr>size_q = 1024, recentSize = 256, recent = \<lparr>size_l = 1024, evictList = []\<rparr>,
          frequent = \<lparr>size_l = 1024, evictList = []\<rparr>,
          recentEvict = \<lparr>size_l = 512, evictList = []\<rparr>\<rparr>"
  by (simp add: New2Q_def NewLRU_def MAX_FILE_HANDLES_def)

lemma New2Q_fresh:
  assumes "2 \<le> n"
  shows "fresh_inv n [] (projr (New2Q n :: error + ('k, 'v) TwoQueueCache))"
proof -
  from assms have "n \<noteq> 0" and "n div 2 \<noteq> 0" by auto
  then show ?thesis
    by (simp add: New2Q_def NewLRU_def fresh_inv_def)
qed

text \<open>
  Adding an entry with a new key to a cache that was only ever added to: when the cache
  is full the oldest entry of \<open>recent\<close> makes room.
\<close>

lemma fresh_inv_Add2Q:
  assumes inv: "fresh_inv n kvs c" and n: "0 < n" and new: "k \<notin> fst ` set kvs"
  shows "fresh_inv n (kvs @ [(k, v)]) (Add2Q c k v)"
proof -
  from inv have sz: "size_q c = n" "recentSize c = n div 4" "size_l (recent c) = n"
      "size_l (frequent c) = n"
    and fr: "evictList (frequent c) = []"
    and re: "evictList (recent c) = take n (rev kvs)"
    and gh: "fst ` set (evictList (recentEvict c)) \<subseteq> fst ` set kvs"
    by (simp_all add: fresh_inv_def)
  have nf: "\<not> LRU_Contains (frequent c) k"
    by (simp add: LRU_Contains_iff fr)
  have nr: "\<not> LRU_Contains (recent c) k"
    using new in_keys_take [of k n "rev kvs"] by (auto simp: LRU_Contains_iff re)
  have ng: "\<not> LRU_Contains (recentEvict c) k"
    using new gh by (auto simp: LRU_Contains_iff)
  have add: "Add2Q c k v =
      (ensureSpace c False)\<lparr>recent := LRU_Add (recent (ensureSpace c False)) k v\<rparr>"
    using nf nr ng by (simp add: Add2Q_def Let_def)
  show ?thesis
  proof (cases "length kvs < n")
    case True
    then have es: "ensureSpace c False = c"
      by (simp add: ensureSpace_def Let_def LRU_Len_def re fr sz)
    have "evictList (LRU_Add (recent c) k v) = (k, v) # rev kvs"
      using nr True by (simp add: LRU_Add_def Let_def LRU_Len_def re sz)
    moreover have "take n (rev (kvs @ [(k, v)])) = (k, v) # rev kvs"
      using True by simp
    ultimately show ?thesis
      using gh by (auto simp: fresh_inv_def add es sz fr)
  next
    case False
    then have len: "n \<le> length kvs" by simp
    then have ne: "take n (rev kvs) \<noteq> []"
      using n by auto
    obtain k' v' where lst: "last (take n (rev kvs)) = (k', v')"
      by (cases "last (take n (rev kvs))")
    have k'in: "k' \<in> fst ` set kvs"
    proof -
      have "(k', v') \<in> set (take n (rev kvs))"
        using last_in_set [OF ne] lst by simp
      then have "(k', v') \<in> set kvs"
        by (auto dest: in_set_takeD)
      then show ?thesis by force
    qed
    have bl: "butlast (take n (rev kvs)) = take (n - 1) (rev kvs)"
      using len by (simp add: butlast_take)
    have gt: "n div 4 < n"
      using n by simp
    have es: "ensureSpace c False =
        c\<lparr>recent := (recent c)\<lparr>evictList := take (n - 1) (rev kvs)\<rparr>,
          recentEvict := LRU_Add (recentEvict c) k' ()\<rparr>"
      using len n ne gt lst
      by (simp add: ensureSpace_def Let_def LRU_Len_def re fr sz LRU_RemoveOldest_def bl)
    have nr': "\<not> LRU_Contains ((recent c)\<lparr>evictList := take (n - 1) (rev kvs)\<rparr>) k"
      using new in_keys_take [of k "n - 1" "rev kvs"] by (auto simp: LRU_Contains_iff)
    have "evictList (LRU_Add ((recent c)\<lparr>evictList := take (n - 1) (rev kvs)\<rparr>) k v)
            = (k, v) # take (n - 1) (rev kvs)"
      using nr' len n by (simp add: LRU_Add_def Let_def LRU_Len_def sz)
    moreover have "take n (rev (kvs @ [(k, v)])) = (k, v) # take (n - 1) (rev kvs)"
      using n by (simp add: take_Cons')
    moreover have "fst ` set (evictList (LRU_Add (recentEvict c) k' ())) \<subseteq> fst ` set kvs"
      using keys_LRU_Add [of "recentEvict c" k' "()"] gh k'in by auto
    ultimately show ?thesis
      by (auto simp: fresh_inv_def add es sz fr)
  qed
qed

lemma fresh_inv_foldl:
  assumes "fresh_inv n kvs c" and "0 < n" and "distinct (map fst es)"
    and "fst ` set es \<inter> fst ` set kvs = {}"
  shows "fresh_inv n (kvs @ es) (foldl (\<lambda>c' e. Add2Q c' (fst e) (snd e)) c es)"
  using assms
proof (induction es arbitrary: kvs c)
  case Nil
  then show ?case by simp
next
  case (Cons e es)
  have new: "fst e \<notin> fst ` set kvs"
    using Cons.prems(4) by auto
  have "fresh_inv n (kvs @ [(fst e, snd e)]) (Add2Q c (fst e) (snd e))"
    using Cons.prems(1,2) new by (rule fresh_inv_Add2Q)
  then have step: "fresh_inv n (kvs @ [e]) (Add2Q c (fst e) (snd e))"
    by simp
  have disj: "fst ` set es \<inter> fst ` set (kvs @ [e]) = {}"
    using Cons.prems(3,4) by auto
  have d: "distinct (map fst es)"
    using Cons.prems(3) by simp
  have "fresh_inv n ((kvs @ [e]) @ es)
          (foldl (\<lambda>c' e. Add2Q c' (fst e) (snd e)) (Add2Q c (fst e) (snd e)) es)"
    using step Cons.prems(2) d disj by (rule Cons.IH)
  then show ?case by simp
qed

section \<open>The server\<close>

lemma fs_newServer [simp]: "fs (newServer v) = \<lparr>VFS = v\<rparr>"
  by (simp add: newServer_def Let_def)

lemma pathForHandle_newServer:
  "pathForHandle (newServer v) = projr (New2Q MAX_FILE_HANDLES)"
  by (simp add: newServer_def Let_def)

lemma reachable_cache_ok:
  "reachable s \<Longrightarrow> cache_ok (pathForHandle s) \<and> cache_ok (contentsForVerifier s)"
proof (induction rule: reachable.induct)
  case (reach_new v)
  show ?case by (simp add: newServer_def New2Q_MAX_FILE_HANDLES cache_ok_def)
next
  case (reach_ToHandle s h filesystem path)
  then show ?case by (simp add: ToHandle_eq cache_ok_Add2Q)
next
  case (reach_FromHandle s fh)
  then show ?case
    using cache_ok_Get2Q [of "pathForHandle s" "copy (replicate 32 0) fh"]
    by (auto simp: FromHandle_def Let_def split: prod.splits option.splits iface.splits)
next
  case (reach_VerifierFor s path contents)
  then show ?case
    by (auto simp: VerifierFor_def Let_def cache_ok_Add2Q split: sum.splits)
next
  case (reach_DataForVerifier s path verifier)
  then show ?case
    using cache_ok_Get2Q [of "contentsForVerifier s" "(verifier, path)"]
    by (auto simp: DataForVerifier_def Let_def split: prod.splits option.splits iface.splits)
next
  case (reach_fs s v)
  then show ?case by simp
qed

lemma roundtrip:
  assumes "reachable s"
  shows "snd (FromHandle (fst (ToHandle h s filesystem P)) (handleOf (elems h P))) = (fs s, Inr P)"
proof -
  have ok: "cache_ok (pathForHandle s)"
    using assms reachable_cache_ok by blast
  show ?thesis
    using FromHandle_hit [of "fst (ToHandle h s filesystem P)" "handleOf (elems h P)" P]
    by (simp add: ToHandle_eq copy_handleOf Get2Q_Add2Q [OF ok])
qed

lemma elems_cong:
  "(\<forall>a \<in> {Data sl..<Data sl + Len sl}. h' a = h a) \<Longrightarrow> elems h' sl = elems h sl"
  by (simp add: elems_def)

lemma registerAll_Cons:
  "registerAll s (call # calls)
     = registerAll (fst (ToHandle (fst call) s (fs s) (snd call))) calls"
  by (simp add: registerAll_def)

lemma registerAll_snoc:
  "registerAll s (calls @ [call])
     = fst (ToHandle (fst call) (registerAll s calls) (fs (registerAll s calls)) (snd call))"
  by (simp add: registerAll_def)

lemma fs_registerAll [simp]: "fs (registerAll s calls) = fs s"
  by (induction calls arbitrary: s) (simp_all add: registerAll_def ToHandle_eq)

lemma pathForHandle_registerAll:
  "pathForHandle (registerAll s calls)
     = foldl (\<lambda>c' e. Add2Q c' (fst e) (snd e)) (pathForHandle s) (map entryOf calls)"
  by (induction calls arbitrary: s) (simp_all add: registerAll_def ToHandle_eq entryOf_def)

lemma reachable_registerAll: "reachable s \<Longrightarrow> reachable (registerAll s calls)"
  by (induction calls arbitrary: s) (simp_all add: registerAll_def reach_ToHandle)

lemma handle_entryOf: "snd (ToHandle (fst call) s filesystem (snd call)) = fst (entryOf call)"
  by (simp add: ToHandle_eq entryOf_def)

text \<open>
  A registry of capacity \<open>c\<close>, fresh, to which paths with different handles are
  registered once each: the \<open>c\<close> registered last are there, the others are gone.
\<close>

lemma fresh_registry:
  assumes fresh: "pathForHandle s = projr (New2Q c)" and c: "2 \<le> c"
    and dist: "distinct (map fst (map entryOf calls))"
  shows "fresh_inv c (map entryOf calls) (pathForHandle (registerAll s calls))"
proof -
  have "fresh_inv c ([] @ map entryOf calls) (pathForHandle (registerAll s calls))"
    unfolding pathForHandle_registerAll
  proof (rule fresh_inv_foldl)
    show "fresh_inv c [] (pathForHandle s)"
      using c by (simp add: fresh New2Q_fresh)
  qed (use c dist in auto)
  then show ?thesis by simp
qed

lemma fresh_resolves:
  assumes fresh: "pathForHandle s = projr (New2Q c)" and c: "2 \<le> c"
    and dist: "distinct (map fst (map entryOf calls))"
    and call: "call \<in> set (take c (rev calls))"
  shows "snd (FromHandle (registerAll s calls) (fst (entryOf call))) = (fs s, Inr (snd call))"
proof -
  let ?C = "pathForHandle (registerAll s calls)"
  have inv: "fresh_inv c (map entryOf calls) ?C"
    using fresh c dist by (rule fresh_registry)
  then have fr: "evictList (frequent ?C) = []"
    and re: "evictList (recent ?C) = take c (rev (map entryOf calls))"
    by (simp_all add: fresh_inv_def)
  have tk: "take c (rev (map entryOf calls)) = map entryOf (take c (rev calls))"
    by (simp add: rev_map take_map)
  have "map fst (take c (rev (map entryOf calls))) = take c (rev (map fst (map entryOf calls)))"
    by (simp add: take_map rev_map)
  then have dk: "distinct (map fst (take c (rev (map entryOf calls))))"
    using dist by simp
  have "entryOf call \<in> set (take c (rev (map entryOf calls)))"
    using call by (simp add: tk)
  then have "(fst (entryOf call), StringSlice (snd call))
      \<in> set (take c (rev (map entryOf calls)))"
    by (simp add: entryOf_def)
  then have "map_of (take c (rev (map entryOf calls))) (fst (entryOf call))
      = Some (StringSlice (snd call))"
    using dk by simp
  then have "snd (Get2Q ?C (fst (entryOf call))) = Some (StringSlice (snd call))"
    by (intro Get2Q_recent) (simp_all add: fr re)
  then show ?thesis
    using FromHandle_hit [of "registerAll s calls" "fst (entryOf call)" "snd call"]
    by (simp add: copy_handleOf entryOf_def)
qed

lemma fresh_expired:
  assumes fresh: "pathForHandle s = projr (New2Q c)" and c: "2 \<le> c"
    and dist: "distinct (map fst (map entryOf calls))"
    and call: "call \<in> set (drop c (rev calls))"
  shows "snd (FromHandle (registerAll s calls) (fst (entryOf call)))
           = (fs s, Inl (errors_New ''handle unknown or expired''))"
proof -
  let ?C = "pathForHandle (registerAll s calls)"
  let ?ks = "rev (map fst (map entryOf calls))"
  have inv: "fresh_inv c (map entryOf calls) ?C"
    using fresh c dist by (rule fresh_registry)
  then have fr: "evictList (frequent ?C) = []"
    and re: "evictList (recent ?C) = take c (rev (map entryOf calls))"
    by (simp_all add: fresh_inv_def)
  have keys: "fst ` set (take c (rev (map entryOf calls))) = set (take c ?ks)"
  proof -
    have "map fst (take c (rev (map entryOf calls))) = take c ?ks"
      by (simp add: take_map rev_map)
    then show ?thesis
      by (metis set_map)
  qed
  have "fst (entryOf call) \<in> set (drop c ?ks)"
  proof -
    have "drop c ?ks = map (\<lambda>x. fst (entryOf x)) (drop c (rev calls))"
      by (simp add: drop_map rev_map)
    then show ?thesis
      using call by simp
  qed
  moreover have "set (take c ?ks) \<inter> set (drop c ?ks) = {}"
    using dist by (intro set_take_disj_set_drop_if_distinct) simp_all
  ultimately have "fst (entryOf call) \<notin> fst ` set (take c (rev (map entryOf calls)))"
    using keys by blast
  then have "Get2Q ?C (fst (entryOf call)) = (?C, None)"
    by (intro Get2Q_miss) (simp_all add: fr re map_of_eq_None_iff)
  then show ?thesis
    using FromHandle_miss [of "registerAll s calls" "fst (entryOf call)"]
    by (simp add: copy_handleOf entryOf_def)
qed

text \<open>The first of more than \<open>c\<close> registrations on the server \<^verbatim>\<open>newServer\<close> builds.\<close>

lemma eviction_newServer:
  assumes "distinct (map fst (map entryOf (first # rest)))" and "1024 \<le> length rest"
  shows "snd (FromHandle (registerAll (newServer v) (first # rest)) (fst (entryOf first)))
           = (\<lparr>VFS = v\<rparr>, Inl (errors_New ''handle unknown or expired''))"
proof -
  have "first \<in> set (drop 1024 (rev (first # rest)))"
    using assms(2) by simp
  then show ?thesis
    using fresh_expired [of "newServer v" MAX_FILE_HANDLES "first # rest" first] assms(1)
    by (simp add: pathForHandle_newServer MAX_FILE_HANDLES_def)
qed

lemma New2Q_eq:
  assumes "2 \<le> n"
  shows "projr (New2Q n :: error + ('k, 'v) TwoQueueCache) =
     \<lparr>size_q = n, recentSize = n div 4, recent = \<lparr>size_l = n, evictList = []\<rparr>,
      frequent = \<lparr>size_l = n, evictList = []\<rparr>,
      recentEvict = \<lparr>size_l = n div 2, evictList = []\<rparr>\<rparr>"
proof -
  from assms have "n \<noteq> 0" and "n div 2 \<noteq> 0" by auto
  then show ?thesis
    by (simp add: New2Q_def NewLRU_def)
qed

lemma Add2Q_first:
  assumes "2 \<le> n"
  shows "Add2Q \<lparr>size_q = n, recentSize = n div 4, recent = \<lparr>size_l = n, evictList = []\<rparr>,
      frequent = \<lparr>size_l = n, evictList = []\<rparr>,
      recentEvict = \<lparr>size_l = n div 2, evictList = []\<rparr>\<rparr> k v
    = \<lparr>size_q = n, recentSize = n div 4, recent = \<lparr>size_l = n, evictList = [(k, v)]\<rparr>,
      frequent = \<lparr>size_l = n, evictList = []\<rparr>,
      recentEvict = \<lparr>size_l = n div 2, evictList = []\<rparr>\<rparr>"
proof -
  from assms have "0 < n" and "\<not> n < Suc 0" by auto
  then show ?thesis
    by (simp add: Add2Q_def LRU_Contains_def ensureSpace_def LRU_Len_def LRU_Add_def Let_def)
qed

lemma Add2Q_second:
  assumes "2 \<le> n"
  shows "Add2Q \<lparr>size_q = n, recentSize = n div 4, recent = \<lparr>size_l = n, evictList = [(k, v)]\<rparr>,
      frequent = \<lparr>size_l = n, evictList = []\<rparr>,
      recentEvict = \<lparr>size_l = n div 2, evictList = []\<rparr>\<rparr> k v'
    = \<lparr>size_q = n, recentSize = n div 4, recent = \<lparr>size_l = n, evictList = []\<rparr>,
      frequent = \<lparr>size_l = n, evictList = [(k, v')]\<rparr>,
      recentEvict = \<lparr>size_l = n div 2, evictList = []\<rparr>\<rparr>"
proof -
  from assms have "0 < n" and "\<not> n < Suc 0" by auto
  then show ?thesis
    by (simp add: Add2Q_def LRU_Contains_def LRU_Len_def LRU_Add_def LRU_Remove_def
        removeElement_def Let_def)
qed

lemma promoted_inv_start:
  assumes "2 \<le> n"
  shows "promoted_inv n k v' []
           (Add2Q (Add2Q (projr (New2Q n :: error + ('k, 'v) TwoQueueCache)) k v) k v')"
  by (simp add: New2Q_eq [OF assms] Add2Q_first [OF assms] Add2Q_second [OF assms]
      promoted_inv_def)

lemma promoted_inv_Add2Q:
  assumes inv: "promoted_inv n k0 v0 kvs c" and n: "2 \<le> n"
    and new: "k \<notin> fst ` set kvs" and ne0: "k \<noteq> k0"
  shows "promoted_inv n k0 v0 (kvs @ [(k, v)]) (Add2Q c k v)"
proof -
  from inv have sz: "size_q c = n" "recentSize c = n div 4" "size_l (recent c) = n"
      "size_l (frequent c) = n"
    and fr: "evictList (frequent c) = [(k0, v0)]"
    and re: "evictList (recent c) = take (n - 1) (rev kvs)"
    and gh: "fst ` set (evictList (recentEvict c)) \<subseteq> fst ` set kvs"
    by (simp_all add: promoted_inv_def)
  have nf: "\<not> LRU_Contains (frequent c) k"
    using ne0 by (simp add: LRU_Contains_iff fr)
  have nr: "\<not> LRU_Contains (recent c) k"
    using new in_keys_take [of k "n - 1" "rev kvs"] by (auto simp: LRU_Contains_iff re)
  have ng: "\<not> LRU_Contains (recentEvict c) k"
    using new gh by (auto simp: LRU_Contains_iff)
  have add: "Add2Q c k v =
      (ensureSpace c False)\<lparr>recent := LRU_Add (recent (ensureSpace c False)) k v\<rparr>"
    using nf nr ng by (simp add: Add2Q_def Let_def)
  show ?thesis
  proof (cases "length kvs < n - 1")
    case True
    then have es: "ensureSpace c False = c"
      by (simp add: ensureSpace_def Let_def LRU_Len_def re fr sz)
    have room: "\<not> n < Suc (length kvs)"
      using True by arith
    have "evictList (LRU_Add (recent c) k v) = (k, v) # rev kvs"
      using nr True room by (simp add: LRU_Add_def Let_def LRU_Len_def re sz)
    moreover have "take (n - 1) (rev (kvs @ [(k, v)])) = (k, v) # rev kvs"
      using True by (simp add: take_Cons')
    ultimately show ?thesis
      using gh by (auto simp: promoted_inv_def add es sz fr)
  next
    case False
    then have len: "n - 1 \<le> length kvs" by simp
    have pos: "0 < n - 1" using n by simp
    then have ne: "take (n - Suc 0) (rev kvs) \<noteq> []"
      using len by auto
    obtain k' v' where lst: "last (take (n - Suc 0) (rev kvs)) = (k', v')"
      by (cases "last (take (n - Suc 0) (rev kvs))")
    have k'in: "k' \<in> fst ` set kvs"
    proof -
      have "(k', v') \<in> set (take (n - Suc 0) (rev kvs))"
        using last_in_set [OF ne] lst by simp
      then have "(k', v') \<in> set kvs"
        by (auto dest: in_set_takeD)
      then show ?thesis by force
    qed
    have bl: "butlast (take (n - Suc 0) (rev kvs)) = take (n - Suc (Suc 0)) (rev kvs)"
      using len by (simp add: butlast_take)
    have gt: "n div 4 < n - 1"
      using n by arith
    have full: "\<not> (min (length kvs) (n - Suc 0) + 1 < n)"
      using len n by simp
    have es: "ensureSpace c False =
        c\<lparr>recent := (recent c)\<lparr>evictList := take (n - Suc (Suc 0)) (rev kvs)\<rparr>,
          recentEvict := LRU_Add (recentEvict c) k' ()\<rparr>"
      using len n ne gt lst full
      by (simp add: ensureSpace_def Let_def LRU_Len_def re fr sz LRU_RemoveOldest_def bl)
    have nr': "\<not> LRU_Contains ((recent c)\<lparr>evictList := take (n - Suc (Suc 0)) (rev kvs)\<rparr>) k"
      using new in_keys_take [of k "n - Suc (Suc 0)" "rev kvs"] by (auto simp: LRU_Contains_iff)
    have "evictList (LRU_Add ((recent c)\<lparr>evictList := take (n - Suc (Suc 0)) (rev kvs)\<rparr>) k v)
            = (k, v) # take (n - Suc (Suc 0)) (rev kvs)"
    proof -
      have "length (take (n - Suc (Suc 0)) (rev kvs)) = n - Suc (Suc 0)"
        using len by simp
      then have "\<not> n < Suc (length (take (n - Suc (Suc 0)) (rev kvs)))"
        using n by arith
      then show ?thesis
        using nr' by (simp add: LRU_Add_def Let_def LRU_Len_def sz del: length_take)
    qed
    moreover have "take (n - Suc 0) (rev (kvs @ [(k, v)])) = (k, v) # take (n - Suc (Suc 0)) (rev kvs)"
      using n pos by (simp add: take_Cons')
    moreover have "fst ` set (evictList (LRU_Add (recentEvict c) k' ())) \<subseteq> fst ` set kvs"
      using keys_LRU_Add [of "recentEvict c" k' "()"] gh k'in by auto
    ultimately show ?thesis
      by (auto simp: promoted_inv_def add es sz fr)
  qed
qed

lemma promoted_inv_foldl:
  assumes "promoted_inv n k0 v0 kvs c" and "2 \<le> n" and "distinct (map fst es)"
    and "fst ` set es \<inter> fst ` set kvs = {}" and "k0 \<notin> fst ` set es"
  shows "promoted_inv n k0 v0 (kvs @ es) (foldl (\<lambda>c' e. Add2Q c' (fst e) (snd e)) c es)"
  using assms
proof (induction es arbitrary: kvs c)
  case Nil
  then show ?case by simp
next
  case (Cons e es)
  have new: "fst e \<notin> fst ` set kvs"
    using Cons.prems(4) by auto
  have ne0: "fst e \<noteq> k0"
    using Cons.prems(5) by auto
  have "promoted_inv n k0 v0 (kvs @ [(fst e, snd e)]) (Add2Q c (fst e) (snd e))"
    using Cons.prems(1,2) new ne0 by (rule promoted_inv_Add2Q)
  then have step: "promoted_inv n k0 v0 (kvs @ [e]) (Add2Q c (fst e) (snd e))"
    by simp
  have disj: "fst ` set es \<inter> fst ` set (kvs @ [e]) = {}"
    using Cons.prems(3,4) by auto
  have d: "distinct (map fst es)" using Cons.prems(3) by simp
  have k: "k0 \<notin> fst ` set es" using Cons.prems(5) by auto
  have "promoted_inv n k0 v0 ((kvs @ [e]) @ es)
          (foldl (\<lambda>c' e. Add2Q c' (fst e) (snd e)) (Add2Q c (fst e) (snd e)) es)"
    using step Cons.prems(2) d disj k by (rule Cons.IH)
  then show ?case by simp
qed

text \<open>
  A handle registered twice sits in the frequent list, and paths registered once after it
  never push it out, however many they are.
\<close>

lemma promoted_handle_survives:
  assumes fresh: "pathForHandle s = projr (New2Q c)" and c: "2 \<le> c"
    and same: "fst (entryOf again) = fst (entryOf call)"
    and dist: "distinct (map fst (map entryOf (call # rest)))"
  shows "snd (FromHandle (registerAll s (call # again # rest)) (fst (entryOf call)))
           = (fs s, Inr (snd again))"
proof -
  let ?C = "pathForHandle (registerAll s (call # again # rest))"
  let ?k = "fst (entryOf call)"
  have start: "promoted_inv c ?k (snd (entryOf again)) []
      (Add2Q (Add2Q (pathForHandle s) ?k (snd (entryOf call))) ?k (snd (entryOf again)))"
    unfolding fresh using c by (rule promoted_inv_start)
  have "promoted_inv c ?k (snd (entryOf again)) ([] @ map entryOf rest) ?C"
    unfolding pathForHandle_registerAll list.map foldl_Cons same
    using start c
  proof (rule promoted_inv_foldl)
    show "distinct (map fst (map entryOf rest))" using dist by simp
    show "fst ` set (map entryOf rest) \<inter> fst ` set [] = {}" by simp
    show "?k \<notin> fst ` set (map entryOf rest)" using dist by auto
  qed
  then have "evictList (frequent ?C) = [(?k, StringSlice (snd again))]"
    by (simp add: promoted_inv_def entryOf_def)
  then have "snd (Get2Q ?C ?k) = Some (StringSlice (snd again))"
    by (intro Get2Q_frequent) simp
  then show ?thesis
    using FromHandle_hit [of "registerAll s (call # again # rest)" ?k "snd again"]
    by (simp add: copy_handleOf entryOf_def)
qed

lemma promoted_handle_survives_newServer:
  assumes "fst (entryOf again) = fst (entryOf call)"
    and "distinct (map fst (map entryOf (call # rest)))"
  shows "snd (FromHandle (registerAll (newServer v) (call # again # rest)) (fst (entryOf call)))
           = (\<lparr>VFS = v\<rparr>, Inr (snd again))"
  using promoted_handle_survives [of "newServer v" MAX_FILE_HANDLES again call rest] assms
  by (simp add: pathForHandle_newServer MAX_FILE_HANDLES_def)

lemma Get2Q_cached: "k \<in> Keys2Q c \<Longrightarrow> snd (Get2Q c k) \<noteq> None"
proof (cases "map_of (evictList (frequent c)) k")
  case (Some v)
  then show ?thesis by (simp add: Get2Q_frequent)
next
  case None
  assume "k \<in> Keys2Q c"
  with None have "k \<in> fst ` set (evictList (recent c))"
    by (auto simp: Keys2Q_def map_of_eq_None_iff)
  then obtain v where "map_of (evictList (recent c)) k = Some v"
    by (cases "map_of (evictList (recent c)) k") (auto simp: map_of_eq_None_iff)
  with None show ?thesis by (simp add: Get2Q_recent)
qed

lemma DataForVerifier_hit:
  "snd (Get2Q (contentsForVerifier s) (verifier, path)) = Some (FileInfoSlice contents)
   \<Longrightarrow> snd (DataForVerifier s path verifier) = contents"
  by (auto simp: DataForVerifier_def Let_def split: prod.splits option.splits iface.splits)

lemma DataForVerifier_miss:
  "snd (Get2Q (contentsForVerifier s) (verifier, path)) = None
   \<Longrightarrow> snd (DataForVerifier s path verifier) = None"
  by (auto simp: DataForVerifier_def Let_def split: prod.splits option.splits iface.splits)

lemma VerifierFor_ok:
  "Stat (VFS (fs s)) path = Inr node \<Longrightarrow>
   VerifierFor s path contents =
     (s\<lparr>contentsForVerifier :=
          Add2Q (contentsForVerifier s) (uint64 (UnixMicro (ModTime node)), path)
            (FileInfoSlice contents)\<rparr>,
      uint64 (UnixMicro (ModTime node)))"
  by (simp add: VerifierFor_def Let_def)

lemma VerifierFor_fail:
  "Stat (VFS (fs s)) path = Inl err \<Longrightarrow> VerifierFor s path contents = (s, 0)"
  by (simp add: VerifierFor_def)

lemma stored_listing:
  assumes "reachable s" and "Stat (VFS (fs s)) path = Inr node"
  shows "snd (DataForVerifier ((fst (VerifierFor s path contents))\<lparr>fs := \<lparr>VFS = later\<rparr>\<rparr>) path
           (snd (VerifierFor s path contents))) = contents"
    and "snd (DataForVerifier (fst (VerifierFor s path contents)) path
           (snd (VerifierFor s path contents))) = contents"
proof -
  have ok: "cache_ok (contentsForVerifier s)"
    using assms(1) reachable_cache_ok by blast
  show "snd (DataForVerifier ((fst (VerifierFor s path contents))\<lparr>fs := \<lparr>VFS = later\<rparr>\<rparr>) path
           (snd (VerifierFor s path contents))) = contents"
    by (simp add: VerifierFor_ok [OF assms(2)] DataForVerifier_hit Get2Q_Add2Q [OF ok])
  show "snd (DataForVerifier (fst (VerifierFor s path contents)) path
           (snd (VerifierFor s path contents))) = contents"
    by (simp add: VerifierFor_ok [OF assms(2)] DataForVerifier_hit Get2Q_Add2Q [OF ok])
qed

lemma uint64_int64_zero: "uint64 (int64 x) = 0 \<longleftrightarrow> int64 x = 0"
proof
  assume "uint64 (int64 x) = 0"
  then have "sint (word_of_int (signed_take_bit 63 x) :: 64 word) = 0"
    by (simp add: uint64_def int64_def)
  then show "int64 x = 0"
    by (simp add: int64_def signed_of_int)
next
  assume "int64 x = 0"
  then show "uint64 (int64 x) = 0" by (simp add: uint64_def)
qed

lemma FSStat_eq:
  "FSStat s filesystem st =
     (st\<lparr>TotalSize := uint64 (fst (Statfs (VFS (fs s)))),
         FreeSize := uint64 (snd (snd (Statfs (VFS (fs s))))),
         AvailableSize := uint64 (snd (snd (Statfs (VFS (fs s))))),
         TotalFiles := 0, FreeFiles := MaxUint64, AvailableFiles := MaxUint64\<rparr>, None)"
  by (simp add: FSStat_def Let_def split: prod.splits)

subsection \<open>The example filesystems\<close>

lemma Stat_emptyVfs: "Stat (VFS (fs (newServer emptyVfs))) p = Inl ENOENT"
  by (simp add: emptyVfs_def)

lemma Stat_dataVfs: "Stat (VFS (fs (newServer dataVfs))) ''/data'' = Inr dataDir"
  by (simp add: dataVfs_def)

lemma Stat_epochVfs: "Stat (VFS (fs (newServer epochVfs))) ''/data'' = Inr epochDir"
  by (simp add: epochVfs_def)

lemma UnixMicro_epochDir: "uint64 (UnixMicro (ModTime epochDir)) = 0"
  by (simp add: epochDir_def UnixMicro_def int64_def uint64_def)

lemma UnixMicro_dataDir: "UnixMicro (ModTime dataDir) = 1700000000123456"
  by (simp add: dataDir_def UnixMicro_def int64_def signed_take_bit_eq_take_bit_minus
      take_bit_eq_mod bit_iff_odd)

lemma Keys2Q_newServer: "Keys2Q (contentsForVerifier (newServer v)) = {}"
  by (simp add: newServer_def Let_def New2Q_MAX_FILE_HANDLES Keys2Q_def)

lemma fillerPath_inj: "fillerPath i = fillerPath j \<Longrightarrow> i = j"
proof -
  assume "fillerPath i = fillerPath j"
  then have "length (replicate (Suc i) CHR ''x'') = length (replicate (Suc j) CHR ''x'')"
    by (simp add: fillerPath_def)
  then show "i = j" by simp
qed

lemma distinct_fillerPaths: "distinct (fillerPaths n)"
  unfolding fillerPaths_def
  by (simp add: distinct_map inj_on_def) (blast dest: fillerPath_inj)

lemma length_fillerPaths [simp]: "length (fillerPaths n) = n"
  by (simp add: fillerPaths_def)

lemma fillerPaths_shape: "q \<in> set (fillerPaths n) \<Longrightarrow> length q = 2 \<and> hd q = ''dir''"
  by (auto simp: fillerPaths_def fillerPath_def)


lemma elems_heapOf:
  assumes "k < length ps" and "length (ps ! k) \<le> 4"
  shows "elems (heapOf ps) (sliceAt ps k) = ps ! k"
proof (rule nth_equalityI)
  show "length (elems (heapOf ps) (sliceAt ps k)) = length (ps ! k)"
    by (simp add: elems_def sliceAt_def)
next
  fix i
  assume "i < length (elems (heapOf ps) (sliceAt ps k))"
  then have i: "i < length (ps ! k)"
    by (simp add: elems_def sliceAt_def)
  with assms(2) have "i < 4" by simp
  then have "(4 * k + i) div 4 = k" and "(4 * k + i) mod 4 = i"
    by simp_all
  then show "elems (heapOf ps) (sliceAt ps k) ! i = ps ! k ! i"
    using i assms(1) by (simp add: elems_def sliceAt_def heapOf_def)
qed

lemma length_callsOf [simp]: "length (callsOf ps) = length ps"
  by (simp add: callsOf_def)

lemma nth_callsOf: "k < length ps \<Longrightarrow> callsOf ps ! k = (heapOf ps, sliceAt ps k)"
  by (simp add: callsOf_def)

lemma elems_callsOf:
  assumes "\<forall>p \<in> set ps. length p \<le> 4"
  shows "map (\<lambda>call. elems (fst call) (snd call)) (callsOf ps) = ps"
proof (rule nth_equalityI)
  show "length (map (\<lambda>call. elems (fst call) (snd call)) (callsOf ps)) = length ps"
    by simp
next
  fix k
  assume "k < length (map (\<lambda>call. elems (fst call) (snd call)) (callsOf ps))"
  then have k: "k < length ps" by simp
  then have "length (ps ! k) \<le> 4"
    using assms by simp
  then show "map (\<lambda>call. elems (fst call) (snd call)) (callsOf ps) ! k = ps ! k"
    using k by (simp add: nth_callsOf elems_heapOf)
qed

lemma callsOf_snoc:
  "callsOf ps = take (length ps - 1) (callsOf ps) @ [(heapOf ps, sliceAt ps (length ps - 1))]"
  if "ps \<noteq> []"
proof -
  have "callsOf ps \<noteq> []"
    using that by (simp add: callsOf_def)
  then have "callsOf ps = butlast (callsOf ps) @ [last (callsOf ps)]"
    by simp
  moreover have "last (callsOf ps) = (heapOf ps, sliceAt ps (length ps - 1))"
    using that \<open>callsOf ps \<noteq> []\<close> by (simp add: last_conv_nth nth_callsOf)
  moreover have "butlast (callsOf ps) = take (length ps - 1) (callsOf ps)"
    by (simp add: butlast_conv_take)
  ultimately show ?thesis by simp
qed

lemma flipFirst_handleOf:
  "length (flipFirst (handleOf components)) = 32"
  "flipFirst (handleOf components) \<noteq> handleOf components"
proof -
  obtain b bs where h: "handleOf components = b # bs"
    using length_handleOf [of components] by (cases "handleOf components") auto
  show "length (flipFirst (handleOf components)) = 32"
    using length_handleOf [of components] by (simp add: h flipFirst_def)
  show "flipFirst (handleOf components) \<noteq> handleOf components"
    by (simp add: h flipFirst_def)
qed

section \<open>The claims\<close>

text \<open>
  Claim C1. For every path \<open>P\<close>, in every state the server can be in, \<^verbatim>\<open>FromHandle\<close>
  called right after \<^verbatim>\<open>ToHandle(P)\<close> on the handle it returned succeeds: it returns the
  slice \<open>P\<close> and no error, so the caller reads the components of \<open>P\<close>.
\<close>

theorem FromHandle_ToHandle:
  assumes "reachable s"
  shows "snd (FromHandle (fst (ToHandle h s filesystem P)) (snd (ToHandle h s filesystem P)))
           = (fs s, Inr P)
         \<and> readPath h (snd (snd (FromHandle (fst (ToHandle h s filesystem P))
                                    (snd (ToHandle h s filesystem P)))))
             = Inr (elems h P)"
  using roundtrip [OF assms, of h filesystem P] by (simp add: ToHandle_eq readPath_def)

theorem FromHandle_ToHandle_witness:
  "reachable (newServer emptyVfs)
   \<and> elems (heapOf docsPaths) (sliceAt docsPaths 0) = [''docs'', ''report.txt'']
   \<and> snd (FromHandle
            (fst (ToHandle (heapOf docsPaths) (newServer emptyVfs) \<lparr>VFS = emptyVfs\<rparr>
                    (sliceAt docsPaths 0)))
            (snd (ToHandle (heapOf docsPaths) (newServer emptyVfs) \<lparr>VFS = emptyVfs\<rparr>
                    (sliceAt docsPaths 0))))
       = (\<lparr>VFS = emptyVfs\<rparr>, Inr (sliceAt docsPaths 0))
   \<and> readPath (heapOf docsPaths)
        (snd (snd (FromHandle
            (fst (ToHandle (heapOf docsPaths) (newServer emptyVfs) \<lparr>VFS = emptyVfs\<rparr>
                    (sliceAt docsPaths 0)))
            (snd (ToHandle (heapOf docsPaths) (newServer emptyVfs) \<lparr>VFS = emptyVfs\<rparr>
                    (sliceAt docsPaths 0))))))
       = Inr [''docs'', ''report.txt'']"
proof -
  have r: "reachable (newServer emptyVfs)" by (rule reach_new)
  have e: "elems (heapOf docsPaths) (sliceAt docsPaths 0) = [''docs'', ''report.txt'']"
    using elems_heapOf [of 0 docsPaths] by (simp add: docsPaths_def)
  note t = FromHandle_ToHandle [OF r, of "heapOf docsPaths" "\<lparr>VFS = emptyVfs\<rparr>"
      "sliceAt docsPaths 0"]
  show ?thesis
    using r e t unfolding fs_newServer by metis
qed

text \<open>
  Claim C2, as amended. Take a server whose handle registry is a fresh cache of capacity
  \<open>c\<close> (\<open>c\<close> is 1024 for \<^verbatim>\<open>newServer\<close>), register a path and then at least \<open>c\<close> further
  paths, once each, the handles of all of them pairwise different. Then \<^verbatim>\<open>FromHandle\<close>
  on the first handle fails with "handle unknown or expired". On the handle of each of
  the \<open>c\<close> paths registered last it succeeds and returns the slice that was registered;
  the caller reads the registered components through it as long as the cells of that
  slice have not been overwritten since the registration.
\<close>

theorem registry_eviction:
  assumes "pathForHandle s = projr (New2Q c)" and "2 \<le> c"
    and "distinct (map (\<lambda>call. snd (ToHandle (fst call) s (fs s) (snd call))) (first # rest))"
    and "c \<le> length rest"
  shows "snd (FromHandle (registerAll s (first # rest))
                (snd (ToHandle (fst first) s (fs s) (snd first))))
           = (fs s, Inl (errors_New ''handle unknown or expired''))
         \<and> (\<forall>call \<in> set (take c (rev rest)).
              snd (FromHandle (registerAll s (first # rest))
                     (snd (ToHandle (fst call) s (fs s) (snd call))))
                = (fs s, Inr (snd call))
              \<and> (\<forall>h'. (\<forall>a \<in> {Data (snd call)..<Data (snd call) + Len (snd call)}.
                            h' a = fst call a)
                    \<longrightarrow> readPath h'
                          (snd (snd (FromHandle (registerAll s (first # rest))
                                       (snd (ToHandle (fst call) s (fs s) (snd call))))))
                        = Inr (elems (fst call) (snd call))))"
proof -
  have d: "distinct (map fst (map entryOf (first # rest)))"
    using assms(3) by (simp add: handle_entryOf comp_def)
  have "first \<in> set (drop c (rev (first # rest)))"
    using assms(4) by simp
  then have gone: "snd (FromHandle (registerAll s (first # rest)) (fst (entryOf first)))
      = (fs s, Inl (errors_New ''handle unknown or expired''))"
    using assms(1,2) d by (intro fresh_expired)
  have there: "snd (FromHandle (registerAll s (first # rest)) (fst (entryOf call)))
      = (fs s, Inr (snd call))" if "call \<in> set (take c (rev rest))" for call
  proof -
    have "call \<in> set (take c (rev (first # rest)))"
      using that assms(4) by simp
    then show ?thesis
      using assms(1,2) d by (intro fresh_resolves)
  qed
  show ?thesis
    using gone there by (simp add: handle_entryOf readPath_def elems_cong)
qed

theorem registry_eviction_witness:
  "pathForHandle smallServer = projr (New2Q 2)
   \<and> map (\<lambda>call. elems (fst call) (snd call))
        [(heapOf abcPaths, sliceAt abcPaths 0), (heapOf abcPaths, sliceAt abcPaths 1),
         (heapOf abcPaths, sliceAt abcPaths 2)] = [[''abc''], [''a''], [''b'']]
   \<and> distinct (map (\<lambda>call. snd (ToHandle (fst call) smallServer (fs smallServer) (snd call)))
        [(heapOf abcPaths, sliceAt abcPaths 0), (heapOf abcPaths, sliceAt abcPaths 1),
         (heapOf abcPaths, sliceAt abcPaths 2)])
   \<and> snd (FromHandle
            (registerAll smallServer
               [(heapOf abcPaths, sliceAt abcPaths 0), (heapOf abcPaths, sliceAt abcPaths 1),
                (heapOf abcPaths, sliceAt abcPaths 2)])
            (snd (ToHandle (heapOf abcPaths) smallServer (fs smallServer) (sliceAt abcPaths 0))))
       = (fs smallServer, Inl (errors_New ''handle unknown or expired''))
   \<and> snd (FromHandle
            (registerAll smallServer
               [(heapOf abcPaths, sliceAt abcPaths 0), (heapOf abcPaths, sliceAt abcPaths 1),
                (heapOf abcPaths, sliceAt abcPaths 2)])
            (snd (ToHandle (heapOf abcPaths) smallServer (fs smallServer) (sliceAt abcPaths 2))))
       = (fs smallServer, Inr (sliceAt abcPaths 2))
   \<and> readPath (heapOf abcPaths)
        (snd (snd (FromHandle
            (registerAll smallServer
               [(heapOf abcPaths, sliceAt abcPaths 0), (heapOf abcPaths, sliceAt abcPaths 1),
                (heapOf abcPaths, sliceAt abcPaths 2)])
            (snd (ToHandle (heapOf abcPaths) smallServer (fs smallServer) (sliceAt abcPaths 2))))))
       = Inr [''b'']"
proof -
  let ?c0 = "(heapOf abcPaths, sliceAt abcPaths 0)"
  let ?c1 = "(heapOf abcPaths, sliceAt abcPaths 1)"
  let ?c2 = "(heapOf abcPaths, sliceAt abcPaths 2)"
  have f: "pathForHandle smallServer = projr (New2Q 2)"
    by (simp add: smallServer_def)
  have e0: "elems (heapOf abcPaths) (sliceAt abcPaths 0) = [''abc'']"
    using elems_heapOf [of 0 abcPaths] by (simp add: abcPaths_def)
  have e1: "elems (heapOf abcPaths) (sliceAt abcPaths 1) = [''a'']"
    using elems_heapOf [of 1 abcPaths] by (simp add: abcPaths_def)
  have e2: "elems (heapOf abcPaths) (sliceAt abcPaths 2) = [''b'']"
    using elems_heapOf [of 2 abcPaths] by (simp add: abcPaths_def)
  have m: "map (\<lambda>call. elems (fst call) (snd call)) [?c0, ?c1, ?c2] = [[''abc''], [''a''], [''b'']]"
    by (simp only: list.map fst_conv snd_conv e0 e1 e2)
  have d: "distinct (map (\<lambda>call. snd (ToHandle (fst call) smallServer (fs smallServer) (snd call)))
              (?c0 # [?c1, ?c2]))"
    using e1 by (simp add: ToHandle_eq e0 e2 handleOf_def sha256_abc sha256_a sha256_b)
  have l: "2 \<le> length [?c1, ?c2]" by simp
  have c: "(2::nat) \<le> 2" by simp
  have in2: "?c2 \<in> set (take 2 (rev [?c1, ?c2]))" by simp
  have same: "\<forall>a \<in> {Data (snd ?c2)..<Data (snd ?c2) + Len (snd ?c2)}.
      heapOf abcPaths a = fst ?c2 a"
    by simp
  note t = registry_eviction [OF f c d l]
  from t have gone: "snd (FromHandle (registerAll smallServer [?c0, ?c1, ?c2])
        (snd (ToHandle (heapOf abcPaths) smallServer (fs smallServer) (sliceAt abcPaths 0))))
      = (fs smallServer, Inl (errors_New ''handle unknown or expired''))"
    by simp
  from t in2 have there: "snd (FromHandle (registerAll smallServer [?c0, ?c1, ?c2])
        (snd (ToHandle (heapOf abcPaths) smallServer (fs smallServer) (sliceAt abcPaths 2))))
      = (fs smallServer, Inr (sliceAt abcPaths 2))"
    by (metis fst_conv snd_conv)
  from t in2 same have "readPath (heapOf abcPaths)
        (snd (snd (FromHandle (registerAll smallServer [?c0, ?c1, ?c2])
        (snd (ToHandle (heapOf abcPaths) smallServer (fs smallServer) (sliceAt abcPaths 2))))))
      = Inr (elems (heapOf abcPaths) (sliceAt abcPaths 2))"
    by (metis fst_conv snd_conv)
  then have rd: "readPath (heapOf abcPaths)
        (snd (snd (FromHandle (registerAll smallServer [?c0, ?c1, ?c2])
        (snd (ToHandle (heapOf abcPaths) smallServer (fs smallServer) (sliceAt abcPaths 2))))))
      = Inr [''b'']"
    by (simp only: e2)
  show ?thesis
    using f m d gone there rd by (intro conjI)
qed

text \<open>
  The claim as it was stated fails for paths that are different but share a handle. After
  \<^verbatim>\<open>["docs", "report.txt"]\<close>, 2000 further paths are registered, all different from it
  and from one another, the last of them \<^verbatim>\<open>["docs", "report", ".txt"]\<close>: the first
  handle still resolves, to the path registered last.
\<close>

theorem registry_eviction_counterexample:
  "collidingPaths = [''docs'', ''report.txt''] # fillerPaths 1999 @ [[''docs'', ''report'', ''.txt'']]
   \<and> distinct collidingPaths \<and> length collidingPaths = 2001
   \<and> map (\<lambda>call. elems (fst call) (snd call)) (callsOf collidingPaths) = collidingPaths
   \<and> snd (FromHandle (registerAll (newServer emptyVfs) (callsOf collidingPaths))
            (snd (ToHandle (heapOf collidingPaths) (newServer emptyVfs) \<lparr>VFS = emptyVfs\<rparr>
                    (sliceAt collidingPaths 0))))
       = (\<lparr>VFS = emptyVfs\<rparr>, Inr (sliceAt collidingPaths 2000))
   \<and> readPath (heapOf collidingPaths)
        (snd (snd (FromHandle (registerAll (newServer emptyVfs) (callsOf collidingPaths))
            (snd (ToHandle (heapOf collidingPaths) (newServer emptyVfs) \<lparr>VFS = emptyVfs\<rparr>
                    (sliceAt collidingPaths 0))))))
       = Inr [''docs'', ''report'', ''.txt'']"
proof -
  let ?P = "[''docs'', ''report.txt'']" and ?Q = "[''docs'', ''report'', ''.txt'']"
  let ?h = "heapOf collidingPaths"
  let ?S = "registerAll (newServer emptyVfs) (take 2000 (callsOf collidingPaths))"
  have len: "length collidingPaths = 2001"
    by (simp add: collidingPaths_def)
  have d: "distinct collidingPaths"
    using distinct_fillerPaths [of 1999] fillerPaths_shape [of ?P 1999]
      fillerPaths_shape [of ?Q 1999]
    by (auto simp: collidingPaths_def)
  have short: "\<forall>p \<in> set collidingPaths. length p \<le> 4"
    using fillerPaths_shape [of _ 1999] by (auto simp: collidingPaths_def)
  have m: "map (\<lambda>call. elems (fst call) (snd call)) (callsOf collidingPaths) = collidingPaths"
    using short by (rule elems_callsOf)
  have n0: "collidingPaths ! 0 = ?P"
    by (simp add: collidingPaths_def)
  have n2000: "collidingPaths ! 2000 = ?Q"
    by (simp add: collidingPaths_def nth_append)
  have e0: "elems ?h (sliceAt collidingPaths 0) = ?P"
    using elems_heapOf [of 0 collidingPaths] by (simp add: len n0)
  have e2000: "elems ?h (sliceAt collidingPaths 2000) = ?Q"
    using elems_heapOf [of 2000 collidingPaths] by (simp add: len n2000)
  have h: "handleOf ?P = handleOf ?Q"
    by (simp add: handleOf_def bytes_def)
  have "reachable ?S"
    by (intro reachable_registerAll reach_new)
  then have "snd (FromHandle (fst (ToHandle ?h ?S (fs ?S) (sliceAt collidingPaths 2000)))
        (handleOf (elems ?h (sliceAt collidingPaths 2000))))
      = (fs ?S, Inr (sliceAt collidingPaths 2000))"
    by (rule roundtrip)
  moreover have "registerAll (newServer emptyVfs) (callsOf collidingPaths)
      = fst (ToHandle ?h ?S (fs ?S) (sliceAt collidingPaths 2000))"
  proof -
    have "collidingPaths \<noteq> []"
      using len by auto
    then have "callsOf collidingPaths
        = take 2000 (callsOf collidingPaths) @ [(?h, sliceAt collidingPaths 2000)]"
      using callsOf_snoc [of collidingPaths] by (simp add: len)
    then have "registerAll (newServer emptyVfs) (callsOf collidingPaths)
        = registerAll (newServer emptyVfs)
            (take 2000 (callsOf collidingPaths) @ [(?h, sliceAt collidingPaths 2000)])"
      by simp
    then show ?thesis
      by (simp add: registerAll_snoc)
  qed
  ultimately have res: "snd (FromHandle (registerAll (newServer emptyVfs) (callsOf collidingPaths))
        (handleOf ?P)) = (\<lparr>VFS = emptyVfs\<rparr>, Inr (sliceAt collidingPaths 2000))"
    by (simp add: e2000 h)
  show ?thesis
    using d len m res by (simp add: ToHandle_eq e0 e2000 readPath_def collidingPaths_def [symmetric])
qed
text \<open>
  Claim C3, as amended. When the stat of a path fails, \<^verbatim>\<open>VerifierFor\<close> returns zero and
  leaves the server, and so the verifier cache, as it was. A following
  \<^verbatim>\<open>DataForVerifier(path, 0)\<close> therefore answers what it would have answered before the
  call: absent when the cache holds no entry for \<open>(0, path)\<close>.
\<close>

theorem VerifierFor_stat_failure:
  assumes "Stat (VFS (fs s)) path = Inl err"
  shows "VerifierFor s path contents = (s, 0)
         \<and> DataForVerifier (fst (VerifierFor s path contents)) path 0 = DataForVerifier s path 0
         \<and> ((0, path) \<notin> Keys2Q (contentsForVerifier s)
              \<longrightarrow> snd (DataForVerifier (fst (VerifierFor s path contents)) path 0) = None)"
  using assms by (simp add: VerifierFor_fail DataForVerifier_miss Get2Q_not_cached)

theorem VerifierFor_stat_failure_witness:
  "Stat (VFS (fs (newServer emptyVfs))) ''/data'' = Inl ENOENT
   \<and> (0, ''/data'') \<notin> Keys2Q (contentsForVerifier (newServer emptyVfs))
   \<and> VerifierFor (newServer emptyVfs) ''/data'' listing = (newServer emptyVfs, 0)
   \<and> snd (DataForVerifier (fst (VerifierFor (newServer emptyVfs) ''/data'' listing)) ''/data'' 0)
       = None"
proof -
  have st: "Stat (VFS (fs (newServer emptyVfs))) ''/data'' = Inl ENOENT"
    by (rule Stat_emptyVfs)
  have k: "(0, ''/data'') \<notin> Keys2Q (contentsForVerifier (newServer emptyVfs))"
    by (simp add: Keys2Q_newServer)
  show ?thesis
    using st k VerifierFor_stat_failure [OF st, of listing] by blast
qed

text \<open>
  The claim as it was stated fails on a server that cached a listing of the path under
  the verifier zero, while the directory's modification time was the Unix epoch: the stat
  fails now, \<^verbatim>\<open>VerifierFor\<close> returns zero, and \<^verbatim>\<open>DataForVerifier(path, 0)\<close> returns the
  old listing.
\<close>

theorem VerifierFor_stat_failure_counterexample:
  "reachable staleServer
   \<and> Stat (VFS (fs staleServer)) ''/data'' = Inl ENOENT
   \<and> VerifierFor staleServer ''/data'' None = (staleServer, 0)
   \<and> snd (DataForVerifier (fst (VerifierFor staleServer ''/data'' None)) ''/data'' 0)
       = Some [fileA, fileB]"
proof -
  have r: "reachable staleServer"
    unfolding staleServer_def by (intro reach_fs reach_VerifierFor reach_new)
  have st: "Stat (VFS (fs staleServer)) ''/data'' = Inl ENOENT"
    by (simp add: staleServer_def emptyVfs_def)
  have vf: "VerifierFor staleServer ''/data'' None = (staleServer, 0)"
    using st by (rule VerifierFor_fail)
  have v0: "snd (VerifierFor (newServer epochVfs) ''/data'' listing) = 0"
    by (simp add: VerifierFor_ok [OF Stat_epochVfs] UnixMicro_epochDir)
  have "snd (DataForVerifier staleServer ''/data'' 0) = listing"
    using stored_listing(1) [OF reach_new Stat_epochVfs, where contents = listing and later = emptyVfs]
    by (simp add: staleServer_def v0)
  then show ?thesis
    using r st vf by (simp add: listing_def)
qed

text \<open>
  Claim C4. When the stat of a path succeeds, \<^verbatim>\<open>DataForVerifier\<close> called with the
  verifier that \<^verbatim>\<open>VerifierFor(path, snapshot)\<close> returned gives back the snapshot that was
  stored, also when the filesystem has changed in the meantime.
\<close>

theorem DataForVerifier_VerifierFor:
  assumes "reachable s" and "Stat (VFS (fs s)) path = Inr node"
  shows "snd (DataForVerifier (fst (VerifierFor s path contents)) path
                (snd (VerifierFor s path contents))) = contents
         \<and> snd (DataForVerifier ((fst (VerifierFor s path contents))\<lparr>fs := \<lparr>VFS = later\<rparr>\<rparr>) path
                (snd (VerifierFor s path contents))) = contents"
  using stored_listing [OF assms] by blast

theorem DataForVerifier_VerifierFor_witness:
  "reachable (newServer dataVfs)
   \<and> Stat (VFS (fs (newServer dataVfs))) ''/data'' = Inr dataDir
   \<and> snd (DataForVerifier
             ((fst (VerifierFor (newServer dataVfs) ''/data'' listing))\<lparr>fs := \<lparr>VFS = emptyVfs\<rparr>\<rparr>)
             ''/data'' (snd (VerifierFor (newServer dataVfs) ''/data'' listing))) = listing"
proof -
  have r: "reachable (newServer dataVfs)" by (rule reach_new)
  show ?thesis
    using r Stat_dataVfs DataForVerifier_VerifierFor [OF r Stat_dataVfs, where contents = listing and later = emptyVfs]
    by blast
qed

text \<open>
  Claim C5, as amended. When the stat of a path succeeds, the verifier is the
  modification time in microseconds since the Unix epoch, as an unsigned 64-bit number.
  It is zero exactly when that time is zero microseconds, the epoch itself.
\<close>

theorem VerifierFor_zero:
  assumes "Stat (VFS (fs s)) path = Inr node"
  shows "snd (VerifierFor s path contents) = uint64 (UnixMicro (ModTime node))
         \<and> (snd (VerifierFor s path contents) = 0 \<longleftrightarrow> UnixMicro (ModTime node) = 0)"
  using assms by (simp add: VerifierFor_ok UnixMicro_def uint64_int64_zero)

theorem VerifierFor_zero_witness:
  "Stat (VFS (fs (newServer dataVfs))) ''/data'' = Inr dataDir
   \<and> snd (VerifierFor (newServer dataVfs) ''/data'' listing) = 1700000000123456
   \<and> snd (VerifierFor (newServer dataVfs) ''/data'' listing) \<noteq> 0"
proof -
  have u: "uint64 (UnixMicro (ModTime dataDir)) = 1700000000123456"
    by (simp add: UnixMicro_dataDir uint64_def)
  have n: "UnixMicro (ModTime dataDir) \<noteq> 0"
    by (simp add: UnixMicro_dataDir)
  show ?thesis
    using VerifierFor_zero [OF Stat_dataVfs, of listing] Stat_dataVfs u n by metis
qed

text \<open>
  The claim as it was stated fails for a directory whose modification time is the Unix
  epoch: its stat succeeds and its verifier is zero.
\<close>

theorem VerifierFor_zero_counterexample:
  "Stat (VFS (fs (newServer epochVfs))) ''/data'' = Inr epochDir
   \<and> snd (VerifierFor (newServer epochVfs) ''/data'' listing) = 0"
  by (simp add: VerifierFor_ok [OF Stat_epochVfs] UnixMicro_epochDir Stat_epochVfs
      del: fs_newServer)

text \<open>
  Claim C6. \<^verbatim>\<open>ToHandle\<close> is deterministic: the handle it returns for a path does not
  depend on the state of the server, it is the SHA-256 digest of the concatenation of the
  path's components, and it is 32 bytes long.
\<close>

theorem ToHandle_deterministic:
  "snd (ToHandle h s1 f1 P) = snd (ToHandle h s2 f2 P)
   \<and> snd (ToHandle h s1 f1 P) = sha256_Sum256 (concat (map bytes (elems h P)))
   \<and> length (snd (ToHandle h s1 f1 P)) = 32"
  by (simp add: ToHandle_eq handleOf_def length_sha256_Sum256)

text \<open>
  Claim C7. Each of the operations \<^verbatim>\<open>Lock\<close>, \<^verbatim>\<open>Unlock\<close>, \<^verbatim>\<open>Symlink\<close>, \<^verbatim>\<open>Readlink\<close>,
  \<^verbatim>\<open>Lstat\<close>, \<^verbatim>\<open>Chroot\<close>, \<^verbatim>\<open>MkdirAll\<close> and \<^verbatim>\<open>TempFile\<close> returns the error
  \<^verbatim>\<open>billy.ErrNotSupported\<close>, whatever its arguments; none of them calls the filesystem.
\<close>

theorem unsupported_operations:
  "Lock f = Some ErrNotSupported
   \<and> Unlock f = Some ErrNotSupported
   \<and> Symlink filesystem target link = Some ErrNotSupported
   \<and> Readlink filesystem link = Inl ErrNotSupported
   \<and> Lstat filesystem filename = Inl ErrNotSupported
   \<and> Chroot filesystem path = Inl ErrNotSupported
   \<and> MkdirAll filesystem filename perm = Some ErrNotSupported
   \<and> TempFile filesystem dir prefix = Inl ErrNotSupported"
  by (simp add: Lock_def Unlock_def Symlink_def Readlink_def Lstat_def Chroot_def
      MkdirAll_def TempFile_def)

text \<open>
  Claim C8. \<^verbatim>\<open>FSStat\<close> returns no error and fills the response from \<^verbatim>\<open>Statfs\<close>: the
  total size is the total converted to \<^verbatim>\<open>uint64\<close>, the free and the available size are
  the free bytes converted to \<^verbatim>\<open>uint64\<close>, the number of files is zero, and the numbers
  of free and of available files are the largest \<^verbatim>\<open>uint64\<close>. For a filesystem that
  reports 1000 bytes in total, 400 used and 600 free, the response says 1000, 600 and 600.
\<close>

theorem FSStat_fields:
  "snd (FSStat s filesystem st) = None
   \<and> TotalSize (fst (FSStat s filesystem st)) = uint64 (fst (Statfs (VFS (fs s))))
   \<and> uint (TotalSize (fst (FSStat s filesystem st))) = fst (Statfs (VFS (fs s))) mod 2 ^ 64
   \<and> FreeSize (fst (FSStat s filesystem st)) = uint64 (snd (snd (Statfs (VFS (fs s)))))
   \<and> uint (FreeSize (fst (FSStat s filesystem st))) = snd (snd (Statfs (VFS (fs s)))) mod 2 ^ 64
   \<and> AvailableSize (fst (FSStat s filesystem st)) = FreeSize (fst (FSStat s filesystem st))
   \<and> TotalFiles (fst (FSStat s filesystem st)) = 0
   \<and> FreeFiles (fst (FSStat s filesystem st)) = MaxUint64
   \<and> AvailableFiles (fst (FSStat s filesystem st)) = MaxUint64
   \<and> uint MaxUint64 = 2 ^ 64 - 1
   \<and> Statfs (VFS (fs (newServer emptyVfs))) = (1000, 400, 600)
   \<and> fst (FSStat (newServer emptyVfs) filesystem st)
       = st\<lparr>TotalSize := 1000, FreeSize := 600, AvailableSize := 600, TotalFiles := 0,
            FreeFiles := 18446744073709551615, AvailableFiles := 18446744073709551615\<rparr>"
  by (simp add: FSStat_eq uint64_def MaxUint64_def emptyVfs_def uint_word_of_int take_bit_eq_mod)

text \<open>
  Claim C9. Two different paths whose components concatenate to the same bytes get the
  same handle; after \<^verbatim>\<open>ToHandle(P)\<close> and then \<^verbatim>\<open>ToHandle(Q)\<close>, \<^verbatim>\<open>FromHandle\<close> on that
  handle returns \<open>Q\<close>, not \<open>P\<close>.
\<close>

theorem ToHandle_concat_collision:
  assumes "reachable s" and "elems h1 P \<noteq> elems h2 Q"
    and "concat (map bytes (elems h1 P)) = concat (map bytes (elems h2 Q))"
  shows "snd (ToHandle h1 s1 f1 P) = snd (ToHandle h2 s2 f2 Q)
         \<and> snd (FromHandle (fst (ToHandle h2 (fst (ToHandle h1 s f1 P)) f2 Q))
                  (snd (ToHandle h1 s f1 P)))
             = (fs s, Inr Q)
         \<and> readPath h2 (snd (snd (FromHandle (fst (ToHandle h2 (fst (ToHandle h1 s f1 P)) f2 Q))
                                      (snd (ToHandle h1 s f1 P)))))
             = Inr (elems h2 Q)
         \<and> readPath h2 (snd (snd (FromHandle (fst (ToHandle h2 (fst (ToHandle h1 s f1 P)) f2 Q))
                                      (snd (ToHandle h1 s f1 P)))))
             \<noteq> Inr (elems h1 P)"
proof -
  have h: "handleOf (elems h1 P) = handleOf (elems h2 Q)"
    using assms(3) by (simp add: handleOf_def)
  have r: "reachable (fst (ToHandle h1 s f1 P))"
    using assms(1) by (rule reach_ToHandle)
  have "snd (FromHandle (fst (ToHandle h2 (fst (ToHandle h1 s f1 P)) f2 Q))
               (handleOf (elems h2 Q)))
          = (fs (fst (ToHandle h1 s f1 P)), Inr Q)"
    using r by (rule roundtrip)
  then show ?thesis
    using assms(2) by (simp add: ToHandle_eq h readPath_def)
qed

theorem ToHandle_concat_collision_witness:
  "reachable (newServer emptyVfs)
   \<and> elems (heapOf abPaths) (sliceAt abPaths 0) = [''ab'', ''c'']
   \<and> elems (heapOf abPaths) (sliceAt abPaths 1) = [''a'', ''bc'']
   \<and> concat (map bytes [''ab'', ''c'']) = concat (map bytes [''a'', ''bc''])
   \<and> snd (ToHandle (heapOf abPaths) (newServer emptyVfs) \<lparr>VFS = emptyVfs\<rparr> (sliceAt abPaths 0))
       = snd (ToHandle (heapOf abPaths) (newServer emptyVfs) \<lparr>VFS = emptyVfs\<rparr> (sliceAt abPaths 1))
   \<and> snd (FromHandle
            (fst (ToHandle (heapOf abPaths)
                    (fst (ToHandle (heapOf abPaths) (newServer emptyVfs) \<lparr>VFS = emptyVfs\<rparr>
                            (sliceAt abPaths 0)))
                    \<lparr>VFS = emptyVfs\<rparr> (sliceAt abPaths 1)))
            (snd (ToHandle (heapOf abPaths) (newServer emptyVfs) \<lparr>VFS = emptyVfs\<rparr>
                    (sliceAt abPaths 0))))
       = (fs (newServer emptyVfs), Inr (sliceAt abPaths 1))
   \<and> readPath (heapOf abPaths)
        (snd (snd (FromHandle
            (fst (ToHandle (heapOf abPaths)
                    (fst (ToHandle (heapOf abPaths) (newServer emptyVfs) \<lparr>VFS = emptyVfs\<rparr>
                            (sliceAt abPaths 0)))
                    \<lparr>VFS = emptyVfs\<rparr> (sliceAt abPaths 1)))
            (snd (ToHandle (heapOf abPaths) (newServer emptyVfs) \<lparr>VFS = emptyVfs\<rparr>
                    (sliceAt abPaths 0))))))
       = Inr [''a'', ''bc'']"
proof -
  have r: "reachable (newServer emptyVfs)" by (rule reach_new)
  have e0: "elems (heapOf abPaths) (sliceAt abPaths 0) = [''ab'', ''c'']"
    using elems_heapOf [of 0 abPaths] by (simp add: abPaths_def)
  have e1: "elems (heapOf abPaths) (sliceAt abPaths 1) = [''a'', ''bc'']"
    using elems_heapOf [of 1 abPaths] by (simp add: abPaths_def)
  have c: "concat (map bytes [''ab'', ''c'']) = concat (map bytes [''a'', ''bc''])"
    by (simp add: bytes_def)
  have n: "elems (heapOf abPaths) (sliceAt abPaths 0) \<noteq> elems (heapOf abPaths) (sliceAt abPaths 1)"
    unfolding e0 e1 by simp
  have c': "concat (map bytes (elems (heapOf abPaths) (sliceAt abPaths 0)))
      = concat (map bytes (elems (heapOf abPaths) (sliceAt abPaths 1)))"
    unfolding e0 e1 by (rule c)
  note t = ToHandle_concat_collision [OF r n c', of "newServer emptyVfs" "\<lparr>VFS = emptyVfs\<rparr>"
      "newServer emptyVfs" "\<lparr>VFS = emptyVfs\<rparr>"]
  show ?thesis
    using r e0 e1 c t by metis
qed

text \<open>
  Claim C10. \<^verbatim>\<open>FromHandle\<close> looks up the first 32 bytes of its argument, padded with
  zero bytes when there are fewer. Two arguments with the same first 32 bytes get the
  same answer, as do an argument and its zero-padded first 32 bytes; the answer is other
  than "handle unknown or expired" exactly when that key is in the cache; and a handle
  that \<^verbatim>\<open>ToHandle\<close> has just returned resolves to its path with any bytes appended.
\<close>

theorem FromHandle_first_32_bytes:
  assumes "take 32 fh1 = take 32 fh2"
  shows "FromHandle s fh1 = FromHandle s fh2
         \<and> FromHandle s fh1 = FromHandle s (take 32 fh1 @ replicate (32 - length fh1) 0)
         \<and> (take 32 fh1 @ replicate (32 - length fh1) 0 \<in> Keys2Q (pathForHandle s)
              \<longleftrightarrow> snd (snd (FromHandle s fh1)) \<noteq> Inl (errors_New ''handle unknown or expired''))
         \<and> (reachable s \<longrightarrow>
              snd (FromHandle (fst (ToHandle h s filesystem P))
                     (snd (ToHandle h s filesystem P) @ ext)) = (fs s, Inr P))"
proof -
  let ?key = "take 32 fh1 @ replicate (32 - length fh1) (0::byte)"
  have "min (length fh1) 32 = min (length fh2) 32"
    using assms by (metis length_take)
  then have "32 - length fh1 = 32 - length fh2"
    by arith
  then have same: "copy (replicate 32 0) fh1 = copy (replicate 32 (0::byte)) fh2"
    using assms by (simp add: copy_key_take)
  have pad: "copy (replicate 32 (0::byte)) ?key = copy (replicate 32 0) fh1"
    by (simp add: copy_key_take)
  have key: "copy (replicate 32 (0::byte)) fh1 = ?key"
    by (simp add: copy_key_take)
  have cached: "?key \<in> Keys2Q (pathForHandle s)
      \<longleftrightarrow> snd (snd (FromHandle s fh1)) \<noteq> Inl (errors_New ''handle unknown or expired'')"
  proof (cases "?key \<in> Keys2Q (pathForHandle s)")
    case True
    then have "snd (Get2Q (pathForHandle s) ?key) \<noteq> None"
      by (rule Get2Q_cached)
    then show ?thesis
      using True
      by (auto simp: FromHandle_def Let_def key split: prod.splits option.splits iface.splits)
  next
    case False
    then have "Get2Q (pathForHandle s) ?key = (pathForHandle s, None)"
      by (rule Get2Q_not_cached)
    then show ?thesis
      using False by (simp add: FromHandle_def Let_def key)
  qed
  have ext: "snd (FromHandle (fst (ToHandle h s filesystem P))
      (snd (ToHandle h s filesystem P) @ ext)) = (fs s, Inr P)" if r: "reachable s"
  proof -
    have "copy (replicate 32 (0::byte)) (handleOf (elems h P) @ ext)
        = copy (replicate 32 0) (handleOf (elems h P))"
      by (simp add: copy_key_take)
    then have "FromHandle (fst (ToHandle h s filesystem P)) (handleOf (elems h P) @ ext)
        = FromHandle (fst (ToHandle h s filesystem P)) (handleOf (elems h P))"
      by (simp add: FromHandle_def)
    then show ?thesis
      using roundtrip [OF r, of h filesystem P] by (simp add: ToHandle_eq)
  qed
  show ?thesis
    using same pad cached ext by (simp add: FromHandle_def)
qed

theorem FromHandle_first_32_bytes_witness:
  "reachable (newServer emptyVfs)
   \<and> take 32 (handleOf [''abc'']) = take 32 (handleOf [''abc''] @ [1, 2, 3])
   \<and> FromHandle abcServer (handleOf [''abc'']) = FromHandle abcServer (handleOf [''abc''] @ [1, 2, 3])
   \<and> snd (FromHandle abcServer (handleOf [''abc''] @ [1, 2, 3]))
       = (\<lparr>VFS = emptyVfs\<rparr>, Inr (sliceAt abcPaths 0))
   \<and> take 32 (flipFirst (handleOf [''abc''])) \<noteq> take 32 (handleOf [''abc''])
   \<and> snd (snd (FromHandle abcServer (flipFirst (handleOf [''abc'']))))
       = Inl (errors_New ''handle unknown or expired'')"
proof -
  let ?H = "handleOf [''abc'']"
  have r: "reachable (newServer emptyVfs)" by (rule reach_new)
  have e0: "elems (heapOf abcPaths) (sliceAt abcPaths 0) = [''abc'']"
    using elems_heapOf [of 0 abcPaths] by (simp add: abcPaths_def)
  have hd: "snd (ToHandle (heapOf abcPaths) (newServer emptyVfs) \<lparr>VFS = emptyVfs\<rparr>
      (sliceAt abcPaths 0)) = ?H"
    by (simp add: ToHandle_eq e0)
  have t32: "take 32 ?H = take 32 (?H @ [1, 2, 3])"
    by simp
  note t = FromHandle_first_32_bytes [OF t32, where s = "newServer emptyVfs"
      and h = "heapOf abcPaths" and filesystem = "\<lparr>VFS = emptyVfs\<rparr>"
      and P = "sliceAt abcPaths 0" and ext = "[1, 2, 3]"]
  have eq: "FromHandle abcServer ?H = FromHandle abcServer (?H @ [1, 2, 3])"
    using FromHandle_first_32_bytes [OF t32, where s = abcServer] by blast
  have "snd (FromHandle (fst (ToHandle (heapOf abcPaths) (newServer emptyVfs)
        \<lparr>VFS = emptyVfs\<rparr> (sliceAt abcPaths 0)))
      (snd (ToHandle (heapOf abcPaths) (newServer emptyVfs) \<lparr>VFS = emptyVfs\<rparr>
        (sliceAt abcPaths 0)) @ [1, 2, 3])) = (fs (newServer emptyVfs), Inr (sliceAt abcPaths 0))"
    using t r by blast
  then have res: "snd (FromHandle abcServer (?H @ [1, 2, 3]))
      = (\<lparr>VFS = emptyVfs\<rparr>, Inr (sliceAt abcPaths 0))"
    by (simp add: hd abcServer_def)
  have ne: "take 32 (flipFirst ?H) \<noteq> take 32 ?H"
    using flipFirst_handleOf [of "[''abc'']"] by simp
  have big: "(2::nat) \<le> 1024" by simp
  have "pathForHandle abcServer
      = Add2Q (projr (New2Q 1024)) ?H (StringSlice (sliceAt abcPaths 0))"
    by (simp add: abcServer_def ToHandle_eq e0 pathForHandle_newServer MAX_FILE_HANDLES_def)
  then have "evictList (recent (pathForHandle abcServer)) = [(?H, StringSlice (sliceAt abcPaths 0))]
      \<and> evictList (frequent (pathForHandle abcServer)) = []"
    by (simp only: New2Q_eq [OF big] Add2Q_first [OF big]) simp
  then have keys: "Keys2Q (pathForHandle abcServer) = {?H}"
    by (simp add: Keys2Q_def)
  have t32': "take 32 (flipFirst ?H) = take 32 (flipFirst ?H)"
    by simp
  note t' = FromHandle_first_32_bytes [OF t32', where s = abcServer]
  have "take 32 (flipFirst ?H) @ replicate (32 - length (flipFirst ?H)) 0
      \<notin> Keys2Q (pathForHandle abcServer)"
    using flipFirst_handleOf [of "[''abc'']"] by (simp add: keys)
  then have miss: "snd (snd (FromHandle abcServer (flipFirst ?H)))
      = Inl (errors_New ''handle unknown or expired'')"
    using t' by blast
  show ?thesis
    using r t32 eq res ne miss by (intro conjI)
qed

text \<open>
  The cache keeps the slice it was given, so what a handle resolves to follows the
  memory of the caller. Registering \<^verbatim>\<open>["dir", "a"]\<close>, overwriting its second cell and
  registering \<^verbatim>\<open>["dir", "b"]\<close> through the same slice: the first handle now reads
  \<^verbatim>\<open>["dir", "b"]\<close>.
\<close>

lemma shared_cells_example:
  "elems heapDirA sharedSlice = [''dir'', ''a'']
   \<and> elems heapDirB sharedSlice = [''dir'', ''b'']
   \<and> snd (FromHandle
            (registerAll (newServer emptyVfs) [(heapDirA, sharedSlice), (heapDirB, sharedSlice)])
            (snd (ToHandle heapDirA (newServer emptyVfs) \<lparr>VFS = emptyVfs\<rparr> sharedSlice)))
       = (\<lparr>VFS = emptyVfs\<rparr>, Inr sharedSlice)
   \<and> readPath heapDirB
        (snd (snd (FromHandle
            (registerAll (newServer emptyVfs) [(heapDirA, sharedSlice), (heapDirB, sharedSlice)])
            (snd (ToHandle heapDirA (newServer emptyVfs) \<lparr>VFS = emptyVfs\<rparr> sharedSlice)))))
       = Inr [''dir'', ''b'']"
proof -
  let ?a = "(heapDirA, sharedSlice)" and ?b = "(heapDirB, sharedSlice)"
  let ?s = "newServer emptyVfs"
  have ea: "elems heapDirA sharedSlice = [''dir'', ''a'']"
    by (simp add: elems_def sharedSlice_def heapDirA_def upt_rec)
  have eb: "elems heapDirB sharedSlice = [''dir'', ''b'']"
    by (simp add: elems_def sharedSlice_def heapDirB_def upt_rec)
  have res: "snd (FromHandle (registerAll ?s [?a, ?b]) (fst (entryOf ?a)))
      = (\<lparr>VFS = emptyVfs\<rparr>, Inr sharedSlice)"
  proof (cases "fst (entryOf ?a) = fst (entryOf ?b)")
    case True
    have "reachable (registerAll ?s [?a])"
      by (intro reachable_registerAll reach_new)
    then have "snd (FromHandle (fst (ToHandle heapDirB (registerAll ?s [?a])
          (fs (registerAll ?s [?a])) sharedSlice)) (handleOf (elems heapDirB sharedSlice)))
        = (fs (registerAll ?s [?a]), Inr sharedSlice)"
      by (rule roundtrip)
    moreover have "registerAll ?s [?a, ?b]
        = fst (ToHandle heapDirB (registerAll ?s [?a]) (fs (registerAll ?s [?a])) sharedSlice)"
      using registerAll_snoc [of ?s "[?a]" ?b] by simp
    ultimately show ?thesis
      using True by (simp add: entryOf_def)
  next
    case False
    then have d: "distinct (map fst (map entryOf [?a, ?b]))"
      by simp
    have c: "2 \<le> MAX_FILE_HANDLES"
      by (simp add: MAX_FILE_HANDLES_def)
    have "?a \<in> set (take MAX_FILE_HANDLES (rev [?a, ?b]))"
      by (simp add: MAX_FILE_HANDLES_def)
    then have "snd (FromHandle (registerAll ?s [?a, ?b]) (fst (entryOf ?a)))
        = (fs ?s, Inr (snd ?a))"
      using pathForHandle_newServer c d by (intro fresh_resolves)
    then show ?thesis by simp
  qed
  show ?thesis
    using ea eb res by (simp add: handle_entryOf [of ?a, simplified] readPath_def)
qed

end
